theory Spec2Isabelle
  imports Main "HOL-Library.Product_Lexorder" "HOL-Library.Multiset"
begin

section \<open>Tap Sprint backend (task-3/backend/server.js)\<close>

text \<open>
  The server keeps two process-wide values, the \<open>games\<close> map and the \<open>recentGames\<close> array,
  and reacts to socket events (\<open>join_game\<close>, \<open>start_game\<close>, \<open>tap\<close>, \<open>disconnect\<close>), to the
  end-of-round timer it arms itself, and to the HTTP leaderboard request. Each handler runs to
  completion, so a handler is a function from the state before to the state after, together
  with the list of messages it sends. \<open>Date.now()\<close> and \<open>Math.random()\<close> are inputs of
  the environment: every handler reads the clock at most once, so one \<open>now\<close> per event is enough.

  Numbers are modelled as \<open>int\<close>: tap counts and millisecond time stamps stay far below
  \<open>2^53\<close>, where JavaScript numbers are exact integers. Strings are lists of 8-bit
  characters. A payload is an object whose fields are strings when present (\<open>None\<close> is a
  missing field); on a payload that is no object the handlers throw and change nothing.
\<close>

subsection \<open>Configuration\<close>

definition TAP_WINDOW_MS :: int where
  "TAP_WINDOW_MS = 15000"

definition MAX_LEADERBOARD_GAMES :: nat where
  "MAX_LEADERBOARD_GAMES = 50"

subsection \<open>A JavaScript Map: keys in insertion order\<close>

text \<open>
  A \<open>Map\<close> iterates in insertion order; \<open>set\<close> on a present key replaces the value in place,
  on a new key appends; \<open>delete\<close> removes the key. Mutating an object held by the map
  (\<open>player.taps += 1\<close>) is \<open>map_set\<close> on its own key.
\<close>

type_synonym ('k, 'v) jsmap = "('k \<times> 'v) list"

definition map_get :: "('k, 'v) jsmap \<Rightarrow> 'k \<Rightarrow> 'v option" where
  "map_get m k = map_of m k"

fun map_set :: "'k \<Rightarrow> 'v \<Rightarrow> ('k, 'v) jsmap \<Rightarrow> ('k, 'v) jsmap" where
  "map_set k v [] = [(k, v)]"
| "map_set k v (e # m) = (if fst e = k then (k, v) # m else e # map_set k v m)"

definition map_delete :: "'k \<Rightarrow> ('k, 'v) jsmap \<Rightarrow> ('k, 'v) jsmap" where
  "map_delete k m = filter (\<lambda>e. fst e \<noteq> k) m"

definition map_values :: "('k, 'v) jsmap \<Rightarrow> 'v list" where
  "map_values m = map snd m"

definition map_keys :: "('k, 'v) jsmap \<Rightarrow> 'k list" where
  "map_keys m = map fst m"

subsection \<open>Array.prototype.sort and slice\<close>

text \<open>
  \<open>sort\<close> with a comparator is stable (ECMAScript 2019): \<open>a\<close> stays before \<open>b\<close> unless
  the comparator is positive on \<open>(a, b)\<close>. It is modelled by a stable insertion sort.
\<close>

fun js_insort :: "('a \<Rightarrow> 'a \<Rightarrow> int) \<Rightarrow> 'a \<Rightarrow> 'a list \<Rightarrow> 'a list" where
  "js_insort cmp x [] = [x]"
| "js_insort cmp x (y # ys) = (if cmp x y \<le> 0 then x # y # ys else y # js_insort cmp x ys)"

definition js_sort :: "('a \<Rightarrow> 'a \<Rightarrow> int) \<Rightarrow> 'a list \<Rightarrow> 'a list" where
  "js_sort cmp xs = foldr (js_insort cmp) xs []"

text \<open>\<open>xs.slice(0, n)\<close>: a negative \<open>n\<close> counts from the end.\<close>

definition js_slice0 :: "int \<Rightarrow> 'a list \<Rightarrow> 'a list" where
  "js_slice0 n xs =
     (let len = int (length xs);
          e = (if n < 0 then max (len + n) 0 else min n len)
      in take (nat e) xs)"

text \<open>\<open>xs.slice(-k)\<close> for \<open>k > 0\<close>: the last \<open>k\<close> elements.\<close>

definition js_slice_last :: "nat \<Rightarrow> 'a list \<Rightarrow> 'a list" where
  "js_slice_last k xs = drop (length xs - k) xs"

subsection \<open>Strings\<close>

text \<open>\<open>String.prototype.trim\<close> on code units below 256: TAB, LF, VT, FF, CR, SP, NBSP.\<close>

definition is_ws :: "char \<Rightarrow> bool" where
  "is_ws c = (c \<in> set [CHR 0x09, CHR 0x0A, CHR 0x0B, CHR 0x0C, CHR 0x0D, CHR 0x20, CHR 0xA0])"

definition js_trim :: "string \<Rightarrow> string" where
  "js_trim s = rev (dropWhile is_ws (rev (dropWhile is_ws s)))"

text \<open>\<open>String(v || d)\<close> for an optional string field: missing and empty both give \<open>d\<close>.\<close>

definition str_or :: "string option \<Rightarrow> string \<Rightarrow> string" where
  "str_or v d = (case v of None \<Rightarrow> d | Some s \<Rightarrow> if s = [] then d else s)"

definition digit36 :: "nat \<Rightarrow> char" where
  "digit36 d = (''0123456789abcdefghijklmnopqrstuvwxyz'' ! d)"

fun to_base36 :: "nat \<Rightarrow> string" where
  "to_base36 n = (if n < 36 then [digit36 n] else to_base36 (n div 36) @ [digit36 (n mod 36)])"

declare to_base36.simps [simp del]

text \<open>\<open>n.toString(36)\<close> for an integer \<open>n\<close>.\<close>

definition toString36 :: "int \<Rightarrow> string" where
  "toString36 n = (if n < 0 then CHR ''-'' # to_base36 (nat (- n)) else to_base36 (nat n))"

text \<open>
  \<open>generateId\<close>. The argument \<open>rnd\<close> is \<open>Math.random().toString(36).slice(2, 10)\<close>, the
  environment's random draw already rendered: up to eight base-36 digits.
\<close>

definition generateId :: "string \<Rightarrow> string \<Rightarrow> int \<Rightarrow> string" where
  "generateId prefix rnd now = prefix @ ''_'' @ rnd @ js_slice_last 4 (toString36 now)"

subsection \<open>State\<close>

datatype game_status = Lobby | Running | Ended

type_synonym socket_id = string

record player =
  playerId :: string
  username :: string
  socketId :: socket_id
  taps :: int

record game =
  status :: game_status
  players :: "(string, player) jsmap"
  startTime :: "int option"
  endTime :: "int option"
  timeoutHandle :: "nat option"

text \<open>An entry of \<open>scores\<close>: \<open>{ playerId, username, taps }\<close>.\<close>

record score =
  sc_playerId :: string
  sc_username :: string
  sc_taps :: int

text \<open>An item of \<open>recentGames\<close>: \<open>{ gameId, timestamp, winner, scores }\<close>.\<close>

record recent_game =
  rg_gameId :: string
  rg_timestamp :: int
  rg_winner :: "score option"
  rg_scores :: "score list"

text \<open>A row of the leaderboard: \<open>{ username, taps, gameId, timestamp }\<close>.\<close>

record top_row =
  lb_username :: string
  lb_taps :: int
  lb_gameId :: string
  lb_timestamp :: int

text \<open>
  A pending \<open>setTimeout\<close>: its handle, the room its callback closes over and the delay it was
  armed with. A timer leaves \<open>timers\<close> when it fires or is cleared.
\<close>

record pending_timer =
  t_handle :: nat
  t_gameId :: string
  t_delayMs :: int

record server =
  games :: "(string, game) jsmap"
  recentGames :: "recent_game list"
  timers :: "pending_timer list"
  nextHandle :: nat

definition init_server :: server where
  "init_server = \<lparr>games = [], recentGames = [], timers = [], nextHandle = 0\<rparr>"

subsection \<open>Messages\<close>

datatype ack =
    AckJoinOk string string
  | AckStartOk string int int
  | AckError string

datatype broadcast =
    LobbyUpdate string "(string \<times> string) list"
  | GameStart string int int
  | TapUpdate string string int
  | GameResults string "int option" "int option" int "score list" "score option"

datatype out_msg =
    Ack socket_id ack
  | Emit string broadcast
  | HttpJson "top_row list" "recent_game list"

text \<open>\<open>if (typeof ack === 'function') ack(r)\<close>\<close>

definition send_ack :: "bool \<Rightarrow> socket_id \<Rightarrow> ack \<Rightarrow> out_msg list" where
  "send_ack has_ack sock r = (if has_ack then [Ack sock r] else [])"

fun is_ack :: "out_msg \<Rightarrow> bool" where
  "is_ack (Ack _ _) = True"
| "is_ack _ = False"

subsection \<open>Helpers of the server\<close>

definition new_game :: game where
  "new_game = \<lparr>status = Lobby, players = [], startTime = None, endTime = None,
                timeoutHandle = None\<rparr>"

text \<open>\<open>createGameIfMissing\<close>: the registry after the call, and the game it returns.\<close>

definition createGameIfMissing :: "string \<Rightarrow> (string, game) jsmap \<Rightarrow> (string, game) jsmap \<times> game" where
  "createGameIfMissing gid gs =
     (case map_get gs gid of
        Some g \<Rightarrow> (gs, g)
      | None \<Rightarrow> (map_set gid new_game gs, new_game))"

definition score_of_player :: "player \<Rightarrow> score" where
  "score_of_player p = \<lparr>sc_playerId = playerId p, sc_username = username p, sc_taps = taps p\<rparr>"

definition by_taps_desc :: "score \<Rightarrow> score \<Rightarrow> int" where
  "by_taps_desc a b = sc_taps b - sc_taps a"

definition computeResults :: "game \<Rightarrow> score list \<times> score option" where
  "computeResults g =
     (let scores = js_sort by_taps_desc (map score_of_player (map_values (players g)));
          winner = (case scores of [] \<Rightarrow> None | s # _ \<Rightarrow> Some s)
      in (scores, winner))"

definition recordGameToLeaderboard :: "string \<Rightarrow> game \<Rightarrow> int \<Rightarrow> recent_game list \<Rightarrow> recent_game list" where
  "recordGameToLeaderboard gid g now recent =
     (let (scores, winner) = computeResults g;
          pushed = recent @ [\<lparr>rg_gameId = gid, rg_timestamp = now, rg_winner = winner,
                               rg_scores = scores\<rparr>]
      in if length pushed > MAX_LEADERBOARD_GAMES then tl pushed else pushed)"

definition by_taps_then_time :: "top_row \<Rightarrow> top_row \<Rightarrow> int" where
  "by_taps_then_time a b =
     (if lb_taps b - lb_taps a \<noteq> 0 then lb_taps b - lb_taps a
      else lb_timestamp a - lb_timestamp b)"

text \<open>
  The two loops that fill \<open>allScores\<close>: for every item \<open>g\<close> of \<open>recentGames\<close> and every
  score \<open>s\<close> of \<open>g.scores\<close>, in order, one row is pushed.
\<close>

definition allScores :: "recent_game list \<Rightarrow> top_row list" where
  "allScores recent =
     foldl (\<lambda>acc g.
              foldl (\<lambda>acc s. acc @ [\<lparr>lb_username = sc_username s, lb_taps = sc_taps s,
                                        lb_gameId = rg_gameId g, lb_timestamp = rg_timestamp g\<rparr>])
                    acc (rg_scores g))
           [] recent"

definition buildLeaderboardTopN :: "int \<Rightarrow> recent_game list \<Rightarrow> top_row list" where
  "buildLeaderboardTopN n recent = js_slice0 n (js_sort by_taps_then_time (allScores recent))"

definition lobby_players :: "game \<Rightarrow> (string \<times> string) list" where
  "lobby_players g = map (\<lambda>p. (playerId p, username p)) (map_values (players g))"

subsection \<open>Event handlers\<close>

definition join_game ::
  "socket_id \<Rightarrow> string option \<Rightarrow> string option \<Rightarrow> bool \<Rightarrow> string \<Rightarrow> int \<Rightarrow> server
     \<Rightarrow> server \<times> out_msg list" where
  "join_game sock p_username p_gameId has_ack rnd now s =
     (let uname = js_trim (str_or p_username []);
          gid = str_or p_gameId ''default''
      in if uname = [] then (s, send_ack has_ack sock (AckError ''username_required''))
         else
           let (gs, g) = createGameIfMissing gid (games s)
           in if status g \<noteq> Lobby
              then (s\<lparr>games := gs\<rparr>, send_ack has_ack sock (AckError ''game_already_started''))
              else
                let pid = generateId ''player'' rnd now;
                    g' = g\<lparr>players := map_set pid
                            \<lparr>playerId = pid, username = uname, socketId = sock, taps = 0\<rparr>
                            (players g)\<rparr>
                in (s\<lparr>games := map_set gid g' gs\<rparr>,
                    Emit gid (LobbyUpdate gid (lobby_players g'))
                      # send_ack has_ack sock (AckJoinOk pid gid)))"

text \<open>\<open>clearTimeout(h)\<close>\<close>

definition clearTimeout :: "nat \<Rightarrow> pending_timer list \<Rightarrow> pending_timer list" where
  "clearTimeout h ts = filter (\<lambda>t. t_handle t \<noteq> h) ts"

definition start_game ::
  "socket_id \<Rightarrow> string option \<Rightarrow> bool \<Rightarrow> int \<Rightarrow> server \<Rightarrow> server \<times> out_msg list" where
  "start_game sock p_gameId has_ack now s =
     (let gid = str_or p_gameId ''default'';
          (gs, g) = createGameIfMissing gid (games s)
      in if status g = Running
         then (s\<lparr>games := gs\<rparr>, send_ack has_ack sock (AckError ''already_running''))
         else if length (players g) = 0
         then (s\<lparr>games := gs\<rparr>, send_ack has_ack sock (AckError ''no_players''))
         else
           let ps = map (\<lambda>(k, p). (k, p\<lparr>taps := 0\<rparr>)) (players g);
               ts = (case timeoutHandle g of None \<Rightarrow> timers s | Some h \<Rightarrow> clearTimeout h (timers s));
               h' = nextHandle s;
               g' = g\<lparr>status := Running, players := ps, startTime := Some now,
                      endTime := Some (now + TAP_WINDOW_MS), timeoutHandle := Some h'\<rparr>
           in (s\<lparr>games := map_set gid g' gs,
                  timers := ts @ [\<lparr>t_handle = h', t_gameId = gid, t_delayMs = TAP_WINDOW_MS + 5\<rparr>],
                  nextHandle := Suc h'\<rparr>,
               Emit gid (GameStart gid now TAP_WINDOW_MS)
                 # send_ack has_ack sock (AckStartOk gid now TAP_WINDOW_MS)))"

text \<open>
  The callback armed by \<open>start_game\<close>. It closes over the game object, which never leaves
  the registry, so the model finds it again under its key.
\<close>

definition end_game_callback :: "string \<Rightarrow> int \<Rightarrow> server \<Rightarrow> server \<times> out_msg list" where
  "end_game_callback gid now s =
     (case map_get (games s) gid of
        None \<Rightarrow> (s, [])
      | Some g \<Rightarrow>
          let g' = g\<lparr>status := Ended\<rparr>;
              (scores, winner) = computeResults g'
          in (s\<lparr>games := map_set gid g' (games s),
                 recentGames := recordGameToLeaderboard gid g' now (recentGames s)\<rparr>,
              [Emit gid (GameResults gid (startTime g') (endTime g') TAP_WINDOW_MS scores winner)]))"

text \<open>A pending timer fires once: it leaves \<open>timers\<close> and its callback runs.\<close>

definition timer_fire :: "nat \<Rightarrow> int \<Rightarrow> server \<Rightarrow> server \<times> out_msg list" where
  "timer_fire h now s =
     (case find (\<lambda>t. t_handle t = h) (timers s) of
        None \<Rightarrow> (s, [])
      | Some t \<Rightarrow> end_game_callback (t_gameId t) now (s\<lparr>timers := clearTimeout h (timers s)\<rparr>))"

definition tap ::
  "socket_id \<Rightarrow> string option \<Rightarrow> string option \<Rightarrow> int \<Rightarrow> server \<Rightarrow> server \<times> out_msg list" where
  "tap sock p_gameId p_playerId now s =
     (let gid = str_or p_gameId ''default'';
          pid = str_or p_playerId []
      in case map_get (games s) gid of
           None \<Rightarrow> (s, [])
         | Some g \<Rightarrow>
             if status g \<noteq> Running then (s, [])
             else (case (startTime g, endTime g) of
                     (Some st, Some en) \<Rightarrow>
                       if now < st \<or> now > en then (s, [])
                       else (case map_get (players g) pid of
                               None \<Rightarrow> (s, [])
                             | Some p \<Rightarrow>
                                 if socketId p \<noteq> sock then (s, [])
                                 else
                                   let p' = p\<lparr>taps := taps p + 1\<rparr>;
                                       g' = g\<lparr>players := map_set pid p' (players g)\<rparr>
                                   in (s\<lparr>games := map_set gid g' (games s)\<rparr>,
                                       [Emit gid (TapUpdate gid pid (taps p'))]))
                   | _ \<Rightarrow> (s, [])))"

text \<open>
  One round of the loop over \<open>games\<close> in \<open>disconnect\<close>: the first roster entry of the socket
  is looked for (\<open>break\<close> at the first match) and, when its key is truthy, deleted.
\<close>

definition disconnect_game :: "socket_id \<Rightarrow> string \<times> game \<Rightarrow> (string \<times> game) \<times> out_msg list" where
  "disconnect_game sock e =
     (let gid = fst e; g = snd e
      in case find (\<lambda>kp. socketId (snd kp) = sock) (players g) of
           None \<Rightarrow> (e, [])
         | Some kp \<Rightarrow>
             if fst kp = [] then (e, [])
             else
               let g' = g\<lparr>players := map_delete (fst kp) (players g)\<rparr>
               in ((gid, g'), [Emit gid (LobbyUpdate gid (lobby_players g'))]))"

definition disconnect :: "socket_id \<Rightarrow> server \<Rightarrow> server \<times> out_msg list" where
  "disconnect sock s =
     (let rs = map (disconnect_game sock) (games s)
      in (s\<lparr>games := map fst rs\<rparr>, concat (map snd rs)))"

text \<open>\<open>GET /leaderboard\<close>\<close>

definition leaderboard :: "server \<Rightarrow> server \<times> out_msg list" where
  "leaderboard s =
     (s, [HttpJson (buildLeaderboardTopN 10 (recentGames s)) (js_slice_last 10 (recentGames s))])"

subsection \<open>The server as a transition system\<close>

datatype event =
    JoinGame socket_id "string option" "string option" bool string
  | StartGame socket_id "string option" bool
  | Tap socket_id "string option" "string option"
  | Disconnect socket_id
  | TimerFire nat
  | GetLeaderboard

fun step :: "int \<Rightarrow> event \<Rightarrow> server \<Rightarrow> server \<times> out_msg list" where
  "step now (JoinGame sock u g a rnd) s = join_game sock u g a rnd now s"
| "step now (StartGame sock g a) s = start_game sock g a now s"
| "step now (Tap sock g p) s = tap sock g p now s"
| "step now (Disconnect sock) s = disconnect sock s"
| "step now (TimerFire h) s = timer_fire h now s"
| "step now GetLeaderboard s = leaderboard s"

text \<open>A run: the events with the clock reading of each, oldest first.\<close>

fun run :: "(int \<times> event) list \<Rightarrow> server \<Rightarrow> server" where
  "run [] s = s"
| "run (e # es) s = run es (fst (step (fst e) (snd e) s))"

inductive reachable :: "server \<Rightarrow> bool" where
  reachable_init: "reachable init_server"
| reachable_step: "reachable s \<Longrightarrow> reachable (fst (step now e s))"

subsection \<open>Notions of the specification\<close>

text \<open>The score of a player of a room, when both exist.\<close>

definition score_of :: "server \<Rightarrow> string \<Rightarrow> string \<Rightarrow> int option" where
  "score_of s gid pid =
     (case map_get (games s) gid of
        None \<Rightarrow> None
      | Some g \<Rightarrow> map_option taps (map_get (players g) pid))"

text \<open>
  The specification's acceptance condition of a score tick, in its own words: the room exists,
  it is Running, \<open>startTime \<le> t \<le> endTime\<close>, the player is in the roster, and the handle
  of the connection is the one recorded for the player.
\<close>

definition tap_accepted :: "socket_id \<Rightarrow> string \<Rightarrow> string \<Rightarrow> int \<Rightarrow> server \<Rightarrow> bool" where
  "tap_accepted sock gid pid t s =
     (case map_get (games s) gid of
        None \<Rightarrow> False
      | Some g \<Rightarrow>
          status g = Running
          \<and> (case startTime g of None \<Rightarrow> False | Some st \<Rightarrow> st \<le> t)
          \<and> (case endTime g of None \<Rightarrow> False | Some en \<Rightarrow> t \<le> en)
          \<and> (case map_get (players g) pid of None \<Rightarrow> False | Some p \<Rightarrow> socketId p = sock))"

text \<open>A start succeeded when the handler got as far as the \<open>game_start\<close> broadcast.\<close>

fun is_game_start :: "out_msg \<Rightarrow> bool" where
  "is_game_start (Emit _ (GameStart _ _ _)) = True"
| "is_game_start _ = False"

definition started :: "out_msg list \<Rightarrow> bool" where
  "started outs = (\<exists>m \<in> set outs. is_game_start m)"

text \<open>The item \<open>recordGameToLeaderboard\<close> pushes.\<close>

definition leaderboard_entry :: "string \<Rightarrow> game \<Rightarrow> int \<Rightarrow> recent_game" where
  "leaderboard_entry gid g now =
     \<lparr>rg_gameId = gid, rg_timestamp = now, rg_winner = snd (computeResults g),
      rg_scores = fst (computeResults g)\<rparr>"

text \<open>A sequence of record operations, oldest first.\<close>

fun record_all :: "(string \<times> game \<times> int) list \<Rightarrow> recent_game list \<Rightarrow> recent_game list" where
  "record_all [] recent = recent"
| "record_all ((gid, g, now) # rs) recent = record_all rs (recordGameToLeaderboard gid g now recent)"

definition entry_of :: "string \<times> game \<times> int \<Rightarrow> recent_game" where
  "entry_of r = leaderboard_entry (fst r) (fst (snd r)) (snd (snd r))"

text \<open>
  The specification's flattening, in its own words: every retained round's score list, one
  after the other, as a single sequence; each score carries the id and the time stamp of its
  round.
\<close>

definition top_row_of :: "recent_game \<Rightarrow> score \<Rightarrow> top_row" where
  "top_row_of g sc = \<lparr>lb_username = sc_username sc, lb_taps = sc_taps sc,
                       lb_gameId = rg_gameId g, lb_timestamp = rg_timestamp g\<rparr>"

definition flattened :: "recent_game list \<Rightarrow> top_row list" where
  "flattened recent = concat (map (\<lambda>g. map (top_row_of g) (rg_scores g)) recent)"

text \<open>The order of the leaderboard: more taps first, equal taps by the earlier time stamp.\<close>

definition ranks_before :: "top_row \<Rightarrow> top_row \<Rightarrow> bool" where
  "ranks_before a b =
     (lb_taps b < lb_taps a \<or> (lb_taps a = lb_taps b \<and> lb_timestamp a \<le> lb_timestamp b))"

text \<open>Events that are disconnects; the messages of a run; an accepted join of a room.\<close>

fun is_disconnect :: "event \<Rightarrow> bool" where
  "is_disconnect (Disconnect _) = True"
| "is_disconnect _ = False"

fun run_outs :: "(int \<times> event) list \<Rightarrow> server \<Rightarrow> out_msg list" where
  "run_outs [] s = []"
| "run_outs (e # es) s = snd (step (fst e) (snd e) s) @ run_outs es (fst (step (fst e) (snd e) s))"

fun join_ok_for :: "string \<Rightarrow> out_msg \<Rightarrow> bool" where
  "join_ok_for gid (Ack _ (AckJoinOk _ gid')) = (gid' = gid)"
| "join_ok_for gid _ = False"

text \<open>The roster of a room; a room that is not registered yet has none.\<close>

definition roster :: "server \<Rightarrow> string \<Rightarrow> (string, player) jsmap" where
  "roster s gid = (case map_get (games s) gid of None \<Rightarrow> [] | Some g \<Rightarrow> players g)"

text \<open>A room accepts joins when it is in Lobby; a room not registered yet is created in Lobby.\<close>

definition in_lobby :: "server \<Rightarrow> string \<Rightarrow> bool" where
  "in_lobby s gid = (case map_get (games s) gid of None \<Rightarrow> True | Some g \<Rightarrow> status g = Lobby)"

text \<open>The joins of one room among the events, and the ids issued to those that are accepted
  while the room is in Lobby: the joins with a name that is not blank.\<close>

fun is_join_for :: "string \<Rightarrow> event \<Rightarrow> bool" where
  "is_join_for gid (JoinGame _ _ pg _ _) = (str_or pg ''default'' = gid)"
| "is_join_for gid _ = False"

fun issued_id :: "int \<times> event \<Rightarrow> string list" where
  "issued_id (now, JoinGame _ u _ _ rnd) =
     (if js_trim (str_or u []) = [] then [] else [generateId ''player'' rnd now])"
| "issued_id _ = []"

definition issued_ids :: "(int \<times> event) list \<Rightarrow> string list" where
  "issued_ids es = concat (map issued_id es)"

text \<open>
  The number of roster entries of a room that record a connection, and the number of joins a
  connection has sent for a room.
\<close>

definition entries_of :: "socket_id \<Rightarrow> string \<Rightarrow> server \<Rightarrow> nat" where
  "entries_of h gid s = length (filter (\<lambda>kp. socketId (snd kp) = h) (roster s gid))"

fun is_join_by :: "socket_id \<Rightarrow> string \<Rightarrow> event \<Rightarrow> bool" where
  "is_join_by h gid (JoinGame sock _ pg _ _) = (sock = h \<and> str_or pg ''default'' = gid)"
| "is_join_by h gid _ = False"

definition joins_by :: "socket_id \<Rightarrow> string \<Rightarrow> (int \<times> event) list \<Rightarrow> nat" where
  "joins_by h gid es = length (filter (\<lambda>e. is_join_by h gid (snd e)) es)"

subsection \<open>Invariants of the reachable states\<close>

text \<open>
  The timers of a state are in order when the pending timers have distinct handles, each
  pending timer belongs to a Running room that holds its handle, every Running room has its
  timer pending, and the handles held by rooms are below the next handle to be issued and
  differ from room to room.
\<close>

definition timers_ok :: "server \<Rightarrow> bool" where
  "timers_ok s =
     (distinct (map t_handle (timers s))
      \<and> (\<forall>t \<in> set (timers s).
            \<exists>g. map_get (games s) (t_gameId t) = Some g \<and> status g = Running
                 \<and> timeoutHandle g = Some (t_handle t))
      \<and> (\<forall>gid g. map_get (games s) gid = Some g \<and> status g = Running \<longrightarrow>
            (\<exists>t \<in> set (timers s). t_gameId t = gid \<and> timeoutHandle g = Some (t_handle t)))
      \<and> (\<forall>gid g h. map_get (games s) gid = Some g \<and> timeoutHandle g = Some h \<longrightarrow>
            h < nextHandle s)
      \<and> (\<forall>gid g gid' g' h.
            map_get (games s) gid = Some g \<and> map_get (games s) gid' = Some g'
            \<and> timeoutHandle g = Some h \<and> timeoutHandle g' = Some h \<longrightarrow> gid = gid'))"

text \<open>
  Two registries agree on the status and the timer handle of every room of the first, and the
  rooms only the second has are in Lobby and hold no handle.
\<close>

definition same_timing :: "(string, game) jsmap \<Rightarrow> (string, game) jsmap \<Rightarrow> bool" where
  "same_timing gs gs' =
     ((\<forall>gid g. map_get gs gid = Some g \<longrightarrow>
         (\<exists>g'. map_get gs' gid = Some g' \<and> status g' = status g
                \<and> timeoutHandle g' = timeoutHandle g))
      \<and> (\<forall>gid g'. map_get gs' gid = Some g' \<and> map_get gs gid = None \<longrightarrow>
            status g' = Lobby \<and> timeoutHandle g' = None))"

text \<open>The rosters of a state are in order when no roster has a key twice or the empty key.\<close>

definition rosters_ok :: "server \<Rightarrow> bool" where
  "rosters_ok s =
     (\<forall>gid. distinct (map_keys (roster s gid)) \<and> [] \<notin> set (map_keys (roster s gid)))"

text \<open>What \<open>start_game\<close> does to a roster: every score back to zero.\<close>

definition reset_taps :: "(string, player) jsmap \<Rightarrow> (string, player) jsmap" where
  "reset_taps ps = map (\<lambda>(k, p). (k, p\<lparr>taps := 0\<rparr>)) ps"

subsection \<open>Example runs\<close>

text \<open>Alice and Bob join the default room from two connections; then the round is started.\<close>

definition ex_lobby :: server where
  "ex_lobby = run [(100, JoinGame ''A'' (Some ''alice'') None True ''aaaaaaaa''),
                   (101, JoinGame ''B'' (Some ''bob'') None True ''bbbbbbbb'')] init_server"

definition ex_running :: server where
  "ex_running = run [(200, StartGame ''A'' None True)] ex_lobby"

text \<open>Alice joins alone, starts the round and disconnects while it is running.\<close>

definition ex_running_empty :: server where
  "ex_running_empty = run [(100, JoinGame ''A'' (Some ''alice'') None True ''aaaaaaaa''),
                           (200, StartGame ''A'' None True),
                           (300, Disconnect ''A'')] init_server"


text \<open>Fifty-two finished rounds, stamped 0 to 51.\<close>

definition ex_records :: "(string \<times> game \<times> int) list" where
  "ex_records = map (\<lambda>i. (''room'', new_game, int i)) [0..<52]"

text \<open>A history of two rounds with a tie at 5 taps across them.\<close>

definition ex_recent :: "recent_game list" where
  "ex_recent =
     [\<lparr>rg_gameId = ''r1'', rg_timestamp = 10,
        rg_winner = Some \<lparr>sc_playerId = ''p1'', sc_username = ''ann'', sc_taps = 5\<rparr>,
        rg_scores = [\<lparr>sc_playerId = ''p1'', sc_username = ''ann'', sc_taps = 5\<rparr>,
                     \<lparr>sc_playerId = ''p2'', sc_username = ''ben'', sc_taps = 3\<rparr>]\<rparr>,
      \<lparr>rg_gameId = ''r2'', rg_timestamp = 20,
        rg_winner = Some \<lparr>sc_playerId = ''p4'', sc_username = ''dan'', sc_taps = 7\<rparr>,
        rg_scores = [\<lparr>sc_playerId = ''p4'', sc_username = ''dan'', sc_taps = 7\<rparr>,
                     \<lparr>sc_playerId = ''p3'', sc_username = ''cid'', sc_taps = 5\<rparr>]\<rparr>]"

text \<open>After the start: Carl tries to join, Alice disconnects, the timer fires, Dora tries to join.\<close>

definition ex_late_events :: "(int \<times> event) list" where
  "ex_late_events =
     [(300, JoinGame ''C'' (Some ''carl'') None True ''cccccccc''),
      (301, Disconnect ''A''),
      (15205, TimerFire 0),
      (15300, JoinGame ''D'' (Some ''dora'') None True ''dddddddd'')]"

text \<open>Two joins in the same millisecond whose random draws agree.\<close>

definition ex_collision :: "(int \<times> event) list" where
  "ex_collision = [(100, JoinGame ''A'' (Some ''alice'') None True ''aaaaaaaa''),
                   (100, JoinGame ''B'' (Some ''bob'') None True ''aaaaaaaa'')]"

text \<open>One connection joins the default room twice.\<close>

definition ex_double_join :: "(int \<times> event) list" where
  "ex_double_join = [(100, JoinGame ''A'' (Some ''alice'') None True ''aaaaaaaa''),
                     (101, JoinGame ''A'' (Some ''alice'') None True ''bbbbbbbb'')]"

section \<open>Properties\<close>

subsection \<open>Maps\<close>

lemma map_get_map_set_same [simp]: "map_get (map_set k v m) k = Some v"
  by (induction m) (auto simp: map_get_def)

lemma map_get_map_set_other [simp]: "k' \<noteq> k \<Longrightarrow> map_get (map_set k v m) k' = map_get m k'"
  by (induction m) (auto simp: map_get_def)

lemma createGameIfMissing_present:
  "map_get gs gid = Some g \<Longrightarrow> createGameIfMissing gid gs = (gs, g)"
  by (simp add: createGameIfMissing_def)

lemma createGameIfMissing_absent:
  "map_get gs gid = None \<Longrightarrow> createGameIfMissing gid gs = (map_set gid new_game gs, new_game)"
  by (simp add: createGameIfMissing_def)

subsection \<open>The example runs, evaluated\<close>

lemma ex_lobby_eq:
  "ex_lobby = \<lparr>games = [(''default'',
       \<lparr>status = Lobby,
          players =
            [(''player_aaaaaaaa2s'',
              \<lparr>playerId = ''player_aaaaaaaa2s'', username = ''alice'', socketId = ''A'', taps = 0\<rparr>),
             (''player_bbbbbbbb2t'',
              \<lparr>playerId = ''player_bbbbbbbb2t'', username = ''bob'', socketId = ''B'', taps = 0\<rparr>)],
          startTime = None, endTime = None, timeoutHandle = None\<rparr>)],
     recentGames = [], timers = [], nextHandle = 0\<rparr>"
  by code_simp

lemma ex_running_eq:
  "ex_running = \<lparr>games = [(''default'',
       \<lparr>status = Running,
          players =
            [(''player_aaaaaaaa2s'',
              \<lparr>playerId = ''player_aaaaaaaa2s'', username = ''alice'', socketId = ''A'', taps = 0\<rparr>),
             (''player_bbbbbbbb2t'',
              \<lparr>playerId = ''player_bbbbbbbb2t'', username = ''bob'', socketId = ''B'', taps = 0\<rparr>)],
          startTime = Some 200, endTime = Some 15200, timeoutHandle = Some 0\<rparr>)],
     recentGames = [],
     timers = [\<lparr>t_handle = 0, t_gameId = ''default'', t_delayMs = 15005\<rparr>],
     nextHandle = 1\<rparr>"
  by code_simp

lemma ex_running_empty_eq:
  "ex_running_empty = \<lparr>games = [(''default'',
       \<lparr>status = Running, players = [],
          startTime = Some 200, endTime = Some 15200, timeoutHandle = Some 0\<rparr>)],
     recentGames = [],
     timers = [\<lparr>t_handle = 0, t_gameId = ''default'', t_delayMs = 15005\<rparr>],
     nextHandle = 1\<rparr>"
  by code_simp

subsection \<open>Score ticks\<close>

text \<open>
  C1. A score tick processed at server time \<open>t\<close> adds exactly one to the target player's score
  if and only if the room exists, is Running, \<open>startTime \<le> t \<le> endTime\<close> (both ends
  included), the player is in the roster and the connection is the one recorded for the
  player. Otherwise the whole state is unchanged and nothing is sent. In no case is anything
  acknowledged to the sender, and no other score changes.
\<close>

theorem tap_counts_iff_accepted:
  assumes gid: "gid = str_or pg ''default''" and pid: "pid = str_or pp []"
  shows "(if tap_accepted sock gid pid t s
          then \<exists>n. score_of s gid pid = Some n
                 \<and> score_of (fst (tap sock pg pp t s)) gid pid = Some (n + 1)
                 \<and> snd (tap sock pg pp t s) = [Emit gid (TapUpdate gid pid (n + 1))]
          else tap sock pg pp t s = (s, []))
         \<and> (\<forall>m \<in> set (snd (tap sock pg pp t s)). \<not> is_ack m)
         \<and> (\<forall>gid' pid'. (gid', pid') \<noteq> (gid, pid) \<longrightarrow>
               score_of (fst (tap sock pg pp t s)) gid' pid' = score_of s gid' pid')"
proof (intro conjI allI impI)
  show "if tap_accepted sock gid pid t s
          then \<exists>n. score_of s gid pid = Some n
                 \<and> score_of (fst (tap sock pg pp t s)) gid pid = Some (n + 1)
                 \<and> snd (tap sock pg pp t s) = [Emit gid (TapUpdate gid pid (n + 1))]
          else tap sock pg pp t s = (s, [])"
    unfolding gid pid
    by (auto simp: tap_accepted_def tap_def score_of_def Let_def split: option.splits)
next
  show "\<forall>m \<in> set (snd (tap sock pg pp t s)). \<not> is_ack m"
    by (auto simp: tap_def Let_def split: option.splits if_splits)
next
  fix gid' pid' assume ne: "(gid', pid') \<noteq> (gid, pid)"
  show "score_of (fst (tap sock pg pp t s)) gid' pid' = score_of s gid' pid'"
  proof (cases "gid' = gid")
    case False
    then show ?thesis unfolding gid pid
      by (auto simp: tap_def score_of_def Let_def split: option.splits)
  next
    case True
    with ne have "pid' \<noteq> pid" by simp
    with True show ?thesis unfolding gid pid
      by (auto simp: tap_def score_of_def Let_def split: option.splits)
  qed
qed

text \<open>
  In the started example (window 200 to 15200) Alice's tap at 15200 counts, and her tap
  at 15201 does not; Bob's score is untouched by either.
\<close>

theorem tap_counts_iff_accepted_witness:
  "tap_accepted ''A'' ''default'' ''player_aaaaaaaa2s'' 15200 ex_running
   \<and> score_of ex_running ''default'' ''player_aaaaaaaa2s'' = Some 0
   \<and> score_of (fst (tap ''A'' None (Some ''player_aaaaaaaa2s'') 15200 ex_running))
        ''default'' ''player_aaaaaaaa2s'' = Some 1
   \<and> \<not> tap_accepted ''A'' ''default'' ''player_aaaaaaaa2s'' 15201 ex_running
   \<and> tap ''A'' None (Some ''player_aaaaaaaa2s'') 15201 ex_running = (ex_running, [])
   \<and> score_of (fst (tap ''A'' None (Some ''player_aaaaaaaa2s'') 15200 ex_running))
        ''default'' ''player_bbbbbbbb2t'' = Some 0"
proof -
  have g: "''default'' = str_or None ''default''"
    and p: "''player_aaaaaaaa2s'' = str_or (Some ''player_aaaaaaaa2s'') []"
    by (simp_all add: str_or_def)
  have acc: "tap_accepted ''A'' ''default'' ''player_aaaaaaaa2s'' 15200 ex_running"
    and rej: "\<not> tap_accepted ''A'' ''default'' ''player_aaaaaaaa2s'' 15201 ex_running"
    and s0: "score_of ex_running ''default'' ''player_aaaaaaaa2s'' = Some 0"
    and b0: "score_of ex_running ''default'' ''player_bbbbbbbb2t'' = Some 0"
    by (simp_all add: tap_accepted_def score_of_def ex_running_eq map_get_def)
  from tap_counts_iff_accepted [OF g p, of "''A''" 15200 ex_running]
       tap_counts_iff_accepted [OF g p, of "''A''" 15201 ex_running]
       acc rej s0 b0
  show ?thesis by auto
qed

subsection \<open>Starting a round\<close>

lemma not_started_send_ack [simp]: "\<not> started (send_ack a sock r)"
  by (simp add: started_def send_ack_def)

text \<open>
  C5. Whenever \<open>start_game\<close> succeeds, the room's \<open>startTime\<close> and \<open>endTime\<close> are both set,
  \<open>startTime < endTime\<close>, and \<open>endTime - startTime\<close> is the fixed window of 15000 ms.
\<close>

theorem start_sets_window:
  assumes "start_game sock pg a now s = (s', outs)" and "started outs"
  shows "\<exists>g st en. map_get (games s') (str_or pg ''default'') = Some g
           \<and> status g = Running \<and> startTime g = Some st \<and> endTime g = Some en
           \<and> st = now \<and> st < en \<and> en - st = 15000 \<and> en - st = TAP_WINDOW_MS"
proof -
  obtain gs g where c: "createGameIfMissing (str_or pg ''default'') (games s) = (gs, g)"
    by (cases "createGameIfMissing (str_or pg ''default'') (games s)")
  from assms c show ?thesis
    by (auto simp: start_game_def Let_def TAP_WINDOW_MS_def split: if_splits)
qed

theorem start_sets_window_witness:
  "started (snd (start_game ''A'' None True 200 ex_lobby))
   \<and> (\<exists>g. map_get (games (fst (start_game ''A'' None True 200 ex_lobby))) ''default'' = Some g
          \<and> startTime g = Some 200 \<and> endTime g = Some 15200)"
proof -
  have st: "started (snd (start_game ''A'' None True 200 ex_lobby))"
    by (simp add: start_game_def ex_lobby_eq Let_def str_or_def createGameIfMissing_def
          map_get_def started_def)
  from start_sets_window [OF prod.collapse [symmetric] st]
  show ?thesis using st by (auto simp: str_or_def)
qed

text \<open>
  C2, as the code has it. \<open>start_game\<close> on a room with an empty roster fails and changes
  nothing: with \<open>already_running\<close> when the room is Running (that test comes first), with
  \<open>no_players\<close> when it is in Lobby or Ended. On a room that does not exist yet it creates
  the room, in Lobby, and fails with \<open>no_players\<close>.
\<close>

theorem start_empty_roster:
  assumes "gid = str_or pg ''default''"
  shows "(\<forall>g. map_get (games s) gid = Some g \<and> players g = [] \<longrightarrow>
            start_game sock pg a now s =
              (s, send_ack a sock
                    (AckError (if status g = Running then ''already_running'' else ''no_players''))))
         \<and> (map_get (games s) gid = None \<longrightarrow>
              start_game sock pg a now s =
                (s\<lparr>games := map_set gid new_game (games s)\<rparr>,
                 send_ack a sock (AckError ''no_players'')))"
  unfolding assms
  by (auto simp: start_game_def Let_def createGameIfMissing_present createGameIfMissing_absent
        new_game_def)

theorem start_empty_roster_witness:
  "start_game ''A'' None True 400 ex_running_empty
     = (ex_running_empty, [Ack ''A'' (AckError ''already_running'')])
   \<and> start_game ''A'' (Some ''other'') True 400 ex_running_empty
     = (ex_running_empty\<lparr>games := map_set ''other'' new_game (games ex_running_empty)\<rparr>,
        [Ack ''A'' (AckError ''no_players'')])"
proof -
  have g: "''default'' = str_or None ''default''" and o: "''other'' = str_or (Some ''other'') ''default''"
    by (simp_all add: str_or_def)
  have 1: "\<exists>g. map_get (games ex_running_empty) ''default'' = Some g \<and> players g = []
             \<and> status g = Running"
    and 2: "map_get (games ex_running_empty) ''other'' = None"
    by (simp_all add: ex_running_empty_eq map_get_def)
  from start_empty_roster [OF g, of ex_running_empty "''A''" True 400]
       start_empty_roster [OF o, of ex_running_empty "''A''" True 400] 1 2
  show ?thesis by (auto simp: send_ack_def)
qed

text \<open>
  \<open>no_players\<close> is not the answer in every status: in the run where Alice joins, starts the round and disconnects,
  the room is Running with an empty roster, and a start is refused with \<open>already_running\<close>,
  not \<open>no_players\<close>.
\<close>

theorem start_empty_roster_counterexample:
  "(\<exists>g. map_get (games ex_running_empty) ''default'' = Some g \<and> players g = []
        \<and> status g = Running)
   \<and> snd (start_game ''A'' None True 400 ex_running_empty)
       = [Ack ''A'' (AckError ''already_running'')]
   \<and> snd (start_game ''A'' None True 400 ex_running_empty)
       \<noteq> [Ack ''A'' (AckError ''no_players'')]"
  by (simp add: ex_running_empty_eq map_get_def start_game_def Let_def str_or_def
        createGameIfMissing_def send_ack_def)

subsection \<open>Sorting\<close>

lemma js_insort_eq_insort_key:
  assumes "\<And>x y. (cmp x y \<le> 0) = (f x \<le> f y)"
  shows "js_insort cmp x ys = insort_key f x ys"
  by (induction ys) (simp_all add: assms)

lemma js_sort_eq_sort_key:
  assumes "\<And>x y. (cmp x y \<le> 0) = (f x \<le> f y)"
  shows "js_sort cmp xs = sort_key f xs"
  by (induction xs) (simp_all add: js_sort_def js_insort_eq_insort_key [OF assms])






subsection \<open>Results\<close>



subsection \<open>Leaderboard\<close>

lemma recordGameToLeaderboard_eq:
  "recordGameToLeaderboard gid g now recent =
     (if length recent < MAX_LEADERBOARD_GAMES then recent @ [leaderboard_entry gid g now]
      else tl (recent @ [leaderboard_entry gid g now]))"
  by (simp add: recordGameToLeaderboard_def leaderboard_entry_def Let_def split: prod.splits)

lemma drop_one_tl: "drop (Suc 0) xs = tl xs"
  by (simp add: drop_Suc)

lemma MAX_LEADERBOARD_GAMES_pos: "0 < MAX_LEADERBOARD_GAMES"
  by (simp add: MAX_LEADERBOARD_GAMES_def)

lemma recordGameToLeaderboard_drop:
  assumes "length recent \<le> MAX_LEADERBOARD_GAMES"
  shows "recordGameToLeaderboard gid g now recent =
           drop (length recent + 1 - MAX_LEADERBOARD_GAMES) (recent @ [leaderboard_entry gid g now])"
proof (cases "length recent < MAX_LEADERBOARD_GAMES")
  case True
  then show ?thesis by (simp add: recordGameToLeaderboard_eq)
next
  case False
  with assms have l: "length recent = MAX_LEADERBOARD_GAMES" by simp
  then have "length recent + 1 - MAX_LEADERBOARD_GAMES = Suc 0" by simp
  then show ?thesis using l
    by (simp only: recordGameToLeaderboard_eq drop_one_tl) simp
qed

lemma length_recordGameToLeaderboard:
  "length recent \<le> MAX_LEADERBOARD_GAMES \<Longrightarrow>
     length (recordGameToLeaderboard gid g now recent) \<le> MAX_LEADERBOARD_GAMES"
  by (auto simp: recordGameToLeaderboard_eq)

lemma record_all_drop:
  "length recent \<le> MAX_LEADERBOARD_GAMES \<Longrightarrow>
     record_all rs recent =
       drop (length recent + length rs - MAX_LEADERBOARD_GAMES) (recent @ map entry_of rs)"
proof (induction rs arbitrary: recent)
  case Nil
  then show ?case by simp
next
  case (Cons r rs)
  obtain gid g now where r: "r = (gid, g, now)" by (cases r)
  let ?e = "leaderboard_entry gid g now"
  let ?r' = "recordGameToLeaderboard gid g now recent"
  let ?b = "length recent + 1 - MAX_LEADERBOARD_GAMES"
  have len: "length ?r' \<le> MAX_LEADERBOARD_GAMES"
    using Cons.prems by (rule length_recordGameToLeaderboard)
  have r': "?r' = drop ?b (recent @ [?e])"
    using Cons.prems by (rule recordGameToLeaderboard_drop)
  have b: "?b \<le> length (recent @ [?e])" by simp
  have "record_all (r # rs) recent = record_all rs ?r'"
    by (simp add: r)
  also have "\<dots> = drop (length ?r' + length rs - MAX_LEADERBOARD_GAMES) (?r' @ map entry_of rs)"
    using len by (rule Cons.IH)
  also have "?r' @ map entry_of rs = drop ?b ((recent @ [?e]) @ map entry_of rs)"
    using b by (simp only: r' drop_append) simp
  also have "drop (length ?r' + length rs - MAX_LEADERBOARD_GAMES) \<dots>
               = drop (length ?r' + length rs - MAX_LEADERBOARD_GAMES + ?b)
                   ((recent @ [?e]) @ map entry_of rs)"
    by (simp only: drop_drop)
  also have "length ?r' + length rs - MAX_LEADERBOARD_GAMES + ?b
               = length recent + length (r # rs) - MAX_LEADERBOARD_GAMES"
    using Cons.prems MAX_LEADERBOARD_GAMES_pos by (simp add: r')
  also have "(recent @ [?e]) @ map entry_of rs = recent @ map entry_of (r # rs)"
    by (simp add: r entry_of_def)
  finally show ?case .
qed

lemma reachable_run: "reachable s \<Longrightarrow> reachable (run es s)"
  by (induction es arbitrary: s) (auto intro: reachable_step)

lemma step_recentGames:
  "recentGames (fst (step now e s)) = recentGames s
   \<or> (\<exists>gid g. recentGames (fst (step now e s)) = recordGameToLeaderboard gid g now (recentGames s))"
proof (cases e)
  case (JoinGame sock u g a rnd)
  then show ?thesis
    by (simp add: join_game_def Let_def split: prod.splits)
next
  case (StartGame sock g a)
  then show ?thesis
    by (simp add: start_game_def Let_def split: prod.splits)
next
  case (Tap sock g p)
  then show ?thesis
    by (simp add: tap_def Let_def split: option.splits)
next
  case (Disconnect sock)
  then show ?thesis by (simp add: disconnect_def Let_def)
next
  case (TimerFire h)
  then show ?thesis
    by (auto simp: timer_fire_def end_game_callback_def Let_def split: option.splits prod.splits)
next
  case GetLeaderboard
  then show ?thesis by (simp add: leaderboard_def)
qed

lemma reachable_recentGames_bounded:
  "reachable s \<Longrightarrow> length (recentGames s) \<le> MAX_LEADERBOARD_GAMES"
proof (induction rule: reachable.induct)
  case reachable_init
  show ?case by (simp add: init_server_def)
next
  case (reachable_step s now e)
  from step_recentGames [of now e s] reachable_step.IH show ?case
    by (auto intro: length_recordGameToLeaderboard)
qed

text \<open>
  C8. The history never holds more than 50 entries: after any sequence of record operations
  on the empty history it is the last 50 of the recorded entries, in the order recorded, so
  the entries are evicted oldest first. One record operation appends below capacity, and at
  capacity drops the head and appends. In every reachable state of the server the bound holds.
\<close>

theorem leaderboard_bounded_fifo:
  "MAX_LEADERBOARD_GAMES = 50
   \<and> length (record_all rs []) \<le> MAX_LEADERBOARD_GAMES
   \<and> record_all rs [] = drop (length rs - MAX_LEADERBOARD_GAMES) (map entry_of rs)
   \<and> (length recent < MAX_LEADERBOARD_GAMES \<longrightarrow>
        recordGameToLeaderboard gid g now recent = recent @ [leaderboard_entry gid g now])
   \<and> (length recent = MAX_LEADERBOARD_GAMES \<longrightarrow>
        recordGameToLeaderboard gid g now recent = tl recent @ [leaderboard_entry gid g now])
   \<and> (reachable s \<longrightarrow> length (recentGames s) \<le> MAX_LEADERBOARD_GAMES)"
proof (intro conjI impI)
  show "MAX_LEADERBOARD_GAMES = 50" by (simp add: MAX_LEADERBOARD_GAMES_def)
  have d: "record_all rs [] = drop (length rs - MAX_LEADERBOARD_GAMES) (map entry_of rs)"
    using record_all_drop [of "[]" rs] by simp
  show "record_all rs [] = drop (length rs - MAX_LEADERBOARD_GAMES) (map entry_of rs)"
    by (rule d)
  show "length (record_all rs []) \<le> MAX_LEADERBOARD_GAMES"
    by (simp add: d)
next
  assume "length recent < MAX_LEADERBOARD_GAMES"
  then show "recordGameToLeaderboard gid g now recent = recent @ [leaderboard_entry gid g now]"
    by (simp add: recordGameToLeaderboard_eq)
next
  assume l: "length recent = MAX_LEADERBOARD_GAMES"
  then have "recent \<noteq> []" using MAX_LEADERBOARD_GAMES_pos by auto
  with l show "recordGameToLeaderboard gid g now recent = tl recent @ [leaderboard_entry gid g now]"
    by (simp add: recordGameToLeaderboard_eq)
next
  assume "reachable s"
  then show "length (recentGames s) \<le> MAX_LEADERBOARD_GAMES"
    by (rule reachable_recentGames_bounded)
qed

text \<open>After fifty-two records the two oldest, stamped 0 and 1, are gone.\<close>

theorem leaderboard_bounded_fifo_witness:
  "map rg_timestamp (record_all ex_records []) = map int [2..<52]
   \<and> length (record_all ex_records []) = 50
   \<and> length (recentGames ex_running) \<le> MAX_LEADERBOARD_GAMES"
proof -
  note r = leaderboard_bounded_fifo [of ex_records "[]" "''r''" new_game 0 ex_running]
  have d: "record_all ex_records []
             = drop (length ex_records - MAX_LEADERBOARD_GAMES) (map entry_of ex_records)"
    by (rule r [THEN conjunct2, THEN conjunct2, THEN conjunct1])
  have re: "reachable ex_running"
    unfolding ex_running_def ex_lobby_def
    by (intro reachable_run reachable_init)
  have b: "length (recentGames ex_running) \<le> MAX_LEADERBOARD_GAMES"
    by (rule r [THEN conjunct2, THEN conjunct2, THEN conjunct2, THEN conjunct2, THEN conjunct2,
                THEN mp, OF re])
  have l: "length ex_records - MAX_LEADERBOARD_GAMES = 2"
    by (simp add: ex_records_def MAX_LEADERBOARD_GAMES_def)
  have t: "map rg_timestamp (map entry_of ex_records) = map int [0..<52]"
    by (simp add: ex_records_def entry_of_def leaderboard_entry_def comp_def)
  have "map rg_timestamp (record_all ex_records []) = drop 2 (map int [0..<52])"
    by (simp only: d l drop_map t [symmetric])
  also have "\<dots> = map int [2..<52]"
    by (simp only: drop_map drop_upt add_0)
  finally have m: "map rg_timestamp (record_all ex_records []) = map int [2..<52]" .
  from arg_cong [OF m, of length] have len: "length (record_all ex_records []) = 50" by simp
  show ?thesis by (intro conjI m len b)
qed

lemma js_sort_by_taps_then_time:
  "js_sort by_taps_then_time xs = sort_key (\<lambda>r. (- lb_taps r, lb_timestamp r)) xs"
  by (rule js_sort_eq_sort_key) (auto simp: by_taps_then_time_def less_eq_prod_def)

lemma sorted_by_taps_then_time:
  "sorted_wrt (\<lambda>a b. lb_taps b < lb_taps a \<or> (lb_taps a = lb_taps b \<and> lb_timestamp a \<le> lb_timestamp b))
     (js_sort by_taps_then_time xs)"
proof -
  have "sorted (map (\<lambda>r. (- lb_taps r, lb_timestamp r))
                  (sort_key (\<lambda>r. (- lb_taps r, lb_timestamp r)) xs))"
    by (rule sorted_sort_key)
  then have "sorted_wrt (\<lambda>a b. (- lb_taps a, lb_timestamp a) \<le> (- lb_taps b, lb_timestamp b))
               (js_sort by_taps_then_time xs)"
    by (simp add: js_sort_by_taps_then_time sorted_wrt_map)
  then show ?thesis
    by (rule sorted_wrt_mono_rel [rotated]) (auto simp: less_eq_prod_def)
qed

lemma js_slice0_nat: "js_slice0 (int n) xs = take n xs"
  by (simp add: js_slice0_def Let_def min_def)

lemma push_rows:
  "foldl (\<lambda>acc s. acc @ [top_row_of g s]) acc scs = acc @ map (top_row_of g) scs"
  by (induction scs arbitrary: acc) simp_all

lemma push_rounds:
  "foldl (\<lambda>acc g. foldl (\<lambda>acc s. acc @ [top_row_of g s]) acc (rg_scores g)) acc recent
     = acc @ flattened recent"
  by (induction recent arbitrary: acc) (simp_all add: flattened_def push_rows)

lemma allScores_flattened: "allScores recent = flattened recent"
  using push_rounds [of "[]" recent] by (simp add: allScores_def top_row_of_def [abs_def])

lemma length_flattened:
  "length (flattened recent) = sum_list (map (\<lambda>g. length (rg_scores g)) recent)"
  by (induction recent) (simp_all add: flattened_def)

lemma row_in_flattened:
  "g \<in> set recent \<Longrightarrow> sc \<in> set (rg_scores g) \<Longrightarrow> top_row_of g sc \<in> set (flattened recent)"
  by (auto simp: flattened_def)

lemma buildLeaderboardTopN_eq:
  "buildLeaderboardTopN (int n) recent = take n (js_sort by_taps_then_time (flattened recent))"
  by (simp add: buildLeaderboardTopN_def js_slice0_nat allScores_flattened)

lemma sorted_flattened:
  "sorted_wrt ranks_before (js_sort by_taps_then_time xs)"
  using sorted_by_taps_then_time [of xs] by (simp add: ranks_before_def [abs_def])

text \<open>
  C9. For every history and every count \<open>n\<close>, \<open>buildLeaderboardTopN\<close> flattens every retained
  round's score list into a single sequence (as many rows as there are scores in the history),
  sorts it by taps, highest first, equal taps by the earlier time stamp of their round, and
  returns the first \<open>n\<close> entries, all of them when there are fewer. The sorted list holds
  exactly the flattened rows, so with \<open>n\<close> large enough every score of every retained round is
  returned. The leaderboard request returns the state as it was. (A count is a natural
  number; \<open>slice(0, n)\<close> with a negative \<open>n\<close> counts from the end, and the only call passes 10.)
\<close>

theorem topN_sorted_prefix:
  "allScores recent = flattened recent
   \<and> length (flattened recent) = sum_list (map (\<lambda>g. length (rg_scores g)) recent)
   \<and> buildLeaderboardTopN (int n) recent = take n (js_sort by_taps_then_time (flattened recent))
   \<and> length (buildLeaderboardTopN (int n) recent) = min n (length (flattened recent))
   \<and> sorted_wrt ranks_before (js_sort by_taps_then_time (flattened recent))
   \<and> sorted_wrt ranks_before (buildLeaderboardTopN (int n) recent)
   \<and> mset (js_sort by_taps_then_time (flattened recent)) = mset (flattened recent)
   \<and> (length (flattened recent) \<le> n \<longrightarrow>
         mset (buildLeaderboardTopN (int n) recent) = mset (flattened recent)
         \<and> (\<forall>g \<in> set recent. \<forall>sc \<in> set (rg_scores g).
               top_row_of g sc \<in> set (buildLeaderboardTopN (int n) recent)))
   \<and> leaderboard s = (s, [HttpJson (buildLeaderboardTopN (int 10) (recentGames s))
                                   (js_slice_last 10 (recentGames s))])"
proof -
  let ?sorted = "js_sort by_taps_then_time (flattened recent)"
  have m: "mset ?sorted = mset (flattened recent)"
    by (simp add: js_sort_by_taps_then_time)
  have len: "length ?sorted = length (flattened recent)"
    by (simp add: js_sort_by_taps_then_time)
  have 4: "length (buildLeaderboardTopN (int n) recent) = min n (length (flattened recent))"
    by (simp add: buildLeaderboardTopN_eq len min.commute)
  have 6: "sorted_wrt ranks_before (buildLeaderboardTopN (int n) recent)"
    unfolding buildLeaderboardTopN_eq by (rule sorted_wrt_take [OF sorted_flattened])
  have 8: "length (flattened recent) \<le> n \<longrightarrow>
         mset (buildLeaderboardTopN (int n) recent) = mset (flattened recent)
         \<and> (\<forall>g \<in> set recent. \<forall>sc \<in> set (rg_scores g).
               top_row_of g sc \<in> set (buildLeaderboardTopN (int n) recent))"
  proof
    assume "length (flattened recent) \<le> n"
    then have all: "buildLeaderboardTopN (int n) recent = ?sorted"
      by (simp add: buildLeaderboardTopN_eq len)
    have "set ?sorted = set (flattened recent)"
      using arg_cong [OF m, of set_mset] by simp
    with row_in_flattened [of _ recent]
    have "\<forall>g \<in> set recent. \<forall>sc \<in> set (rg_scores g). top_row_of g sc \<in> set ?sorted"
      by blast
    with m show "mset (buildLeaderboardTopN (int n) recent) = mset (flattened recent)
         \<and> (\<forall>g \<in> set recent. \<forall>sc \<in> set (rg_scores g).
               top_row_of g sc \<in> set (buildLeaderboardTopN (int n) recent))"
      by (simp only: all)
  qed
  have 9: "leaderboard s = (s, [HttpJson (buildLeaderboardTopN (int 10) (recentGames s))
                                   (js_slice_last 10 (recentGames s))])"
    by (simp add: leaderboard_def)
  show ?thesis
    by (intro conjI allScores_flattened length_flattened buildLeaderboardTopN_eq 4
          sorted_flattened 6 m 8 9)
qed

text \<open>
  Ann's 5 taps (round stamped 10) rank before Cid's 5 taps (round stamped 20), and with room for
  nine rows all four are returned, Ben's score of the first round among them.
\<close>

theorem topN_sorted_prefix_witness:
  "buildLeaderboardTopN 3 ex_recent =
     [\<lparr>lb_username = ''dan'', lb_taps = 7, lb_gameId = ''r2'', lb_timestamp = 20\<rparr>,
      \<lparr>lb_username = ''ann'', lb_taps = 5, lb_gameId = ''r1'', lb_timestamp = 10\<rparr>,
      \<lparr>lb_username = ''cid'', lb_taps = 5, lb_gameId = ''r2'', lb_timestamp = 20\<rparr>]
   \<and> length (buildLeaderboardTopN 9 ex_recent) = 4
   \<and> \<lparr>lb_username = ''ben'', lb_taps = 3, lb_gameId = ''r1'', lb_timestamp = 10\<rparr>
        \<in> set (buildLeaderboardTopN 9 ex_recent)"
proof -
  let ?r1 = "\<lparr>rg_gameId = ''r1'', rg_timestamp = 10,
        rg_winner = Some \<lparr>sc_playerId = ''p1'', sc_username = ''ann'', sc_taps = 5\<rparr>,
        rg_scores = [\<lparr>sc_playerId = ''p1'', sc_username = ''ann'', sc_taps = 5\<rparr>,
                     \<lparr>sc_playerId = ''p2'', sc_username = ''ben'', sc_taps = 3\<rparr>]\<rparr>"
  let ?ben = "\<lparr>sc_playerId = ''p2'', sc_username = ''ben'', sc_taps = 3\<rparr>"
  have s: "js_sort by_taps_then_time (flattened ex_recent) =
     [\<lparr>lb_username = ''dan'', lb_taps = 7, lb_gameId = ''r2'', lb_timestamp = 20\<rparr>,
      \<lparr>lb_username = ''ann'', lb_taps = 5, lb_gameId = ''r1'', lb_timestamp = 10\<rparr>,
      \<lparr>lb_username = ''cid'', lb_taps = 5, lb_gameId = ''r2'', lb_timestamp = 20\<rparr>,
      \<lparr>lb_username = ''ben'', lb_taps = 3, lb_gameId = ''r1'', lb_timestamp = 10\<rparr>]"
    by code_simp
  have a: "length (flattened ex_recent) = 4"
    by (simp add: flattened_def ex_recent_def)
  have 3: "buildLeaderboardTopN (int 3) ex_recent
             = take 3 (js_sort by_taps_then_time (flattened ex_recent))"
    by (rule topN_sorted_prefix [THEN conjunct2, THEN conjunct2, THEN conjunct1])
  have 9: "length (buildLeaderboardTopN (int 9) ex_recent) = min 9 (length (flattened ex_recent))"
    by (rule topN_sorted_prefix [THEN conjunct2, THEN conjunct2, THEN conjunct2, THEN conjunct1])
  have le: "length (flattened ex_recent) \<le> 9" by (simp add: a)
  have "\<forall>g \<in> set ex_recent. \<forall>sc \<in> set (rg_scores g).
           top_row_of g sc \<in> set (buildLeaderboardTopN (int 9) ex_recent)"
    by (rule topN_sorted_prefix [THEN conjunct2, THEN conjunct2, THEN conjunct2, THEN conjunct2,
              THEN conjunct2, THEN conjunct2, THEN conjunct2, THEN conjunct1, THEN mp, OF le,
              THEN conjunct2])
  moreover have "?r1 \<in> set ex_recent" by (simp add: ex_recent_def)
  moreover have "?ben \<in> set (rg_scores ?r1)" by simp
  ultimately have "top_row_of ?r1 ?ben \<in> set (buildLeaderboardTopN (int 9) ex_recent)"
    by blast
  then have b: "\<lparr>lb_username = ''ben'', lb_taps = 3, lb_gameId = ''r1'', lb_timestamp = 10\<rparr>
        \<in> set (buildLeaderboardTopN (int 9) ex_recent)"
    by (simp add: top_row_of_def)
  have t3: "buildLeaderboardTopN 3 ex_recent =
     [\<lparr>lb_username = ''dan'', lb_taps = 7, lb_gameId = ''r2'', lb_timestamp = 20\<rparr>,
      \<lparr>lb_username = ''ann'', lb_taps = 5, lb_gameId = ''r1'', lb_timestamp = 10\<rparr>,
      \<lparr>lb_username = ''cid'', lb_taps = 5, lb_gameId = ''r2'', lb_timestamp = 20\<rparr>]"
    using 3 s by simp
  have t9: "length (buildLeaderboardTopN 9 ex_recent) = 4"
    using 9 a by simp
  from b have tb: "\<lparr>lb_username = ''ben'', lb_taps = 3, lb_gameId = ''r1'', lb_timestamp = 10\<rparr>
        \<in> set (buildLeaderboardTopN 9 ex_recent)" by simp
  show ?thesis by (intro conjI t3 t9 tb)
qed

subsection \<open>A room that has left the lobby\<close>

lemma map_keys_map_set_present:
  "map_get m k = Some v \<Longrightarrow> map_keys (map_set k v' m) = map_keys m"
  by (induction m) (auto simp: map_get_def map_keys_def split: if_splits)

lemma join_game_nonlobby:
  assumes "map_get (games s) gid = Some g" and "status g \<noteq> Lobby"
  shows "map_get (games (fst (join_game sock u pg a rnd now s))) gid = Some g
         \<and> (\<forall>m \<in> set (snd (join_game sock u pg a rnd now s)). \<not> join_ok_for gid m)"
proof (cases "str_or pg ''default'' = gid")
  case True
  with assms show ?thesis
    by (auto simp: join_game_def Let_def createGameIfMissing_present send_ack_def)
next
  case False
  with assms show ?thesis
    by (auto simp: join_game_def Let_def createGameIfMissing_def send_ack_def
          split: option.splits)
qed

lemma start_game_nonlobby:
  assumes "map_get (games s) gid = Some g" and "status g \<noteq> Lobby"
  shows "\<exists>g'. map_get (games (fst (start_game sock pg a now s))) gid = Some g'
           \<and> status g' \<noteq> Lobby \<and> map_keys (players g') = map_keys (players g)"
proof (cases "str_or pg ''default'' = gid")
  case True
  with assms show ?thesis
    by (auto simp: start_game_def Let_def createGameIfMissing_present map_keys_def comp_def
          case_prod_unfold)
next
  case False
  with assms show ?thesis
    by (auto simp: start_game_def Let_def createGameIfMissing_def split: option.splits)
qed

lemma tap_nonlobby:
  assumes "map_get (games s) gid = Some g" and "status g \<noteq> Lobby"
  shows "\<exists>g'. map_get (games (fst (tap sock pg pp now s))) gid = Some g'
           \<and> status g' \<noteq> Lobby \<and> map_keys (players g') = map_keys (players g)"
proof (cases "str_or pg ''default'' = gid")
  case True
  with assms show ?thesis
    by (auto simp: tap_def Let_def map_keys_map_set_present split: option.splits)
next
  case False
  with assms show ?thesis
    by (auto simp: tap_def Let_def split: option.splits)
qed

lemma end_game_callback_nonlobby:
  assumes "map_get (games s) gid = Some g" and "status g \<noteq> Lobby"
  shows "\<exists>g'. map_get (games (fst (end_game_callback gid' now s))) gid = Some g'
           \<and> status g' \<noteq> Lobby \<and> map_keys (players g') = map_keys (players g)"
proof (cases "gid' = gid")
  case True
  with assms show ?thesis
    by (auto simp: end_game_callback_def Let_def split: option.splits prod.splits)
next
  case False
  with assms show ?thesis
    by (auto simp: end_game_callback_def Let_def split: option.splits prod.splits)
qed

lemma timer_fire_nonlobby:
  assumes "map_get (games s) gid = Some g" and "status g \<noteq> Lobby"
  shows "\<exists>g'. map_get (games (fst (timer_fire h now s))) gid = Some g'
           \<and> status g' \<noteq> Lobby \<and> map_keys (players g') = map_keys (players g)"
proof (cases "find (\<lambda>t. t_handle t = h) (timers s)")
  case None
  with assms show ?thesis by (simp add: timer_fire_def)
next
  case (Some t)
  from assms have "map_get (games (s\<lparr>timers := clearTimeout h (timers s)\<rparr>)) gid = Some g"
    by simp
  from end_game_callback_nonlobby [OF this assms(2)] Some show ?thesis
    by (simp add: timer_fire_def)
qed

lemma disconnect_game_fst: "fst (fst (disconnect_game sock e)) = fst e"
  by (simp add: disconnect_game_def Let_def split: option.splits)

lemma disconnect_game_status: "status (snd (fst (disconnect_game sock e))) = status (snd e)"
  by (simp add: disconnect_game_def Let_def split: option.splits)

lemma disconnect_game_players:
  "players (snd (fst (disconnect_game sock e))) = players (snd e)
   \<or> (\<exists>k. players (snd (fst (disconnect_game sock e))) = map_delete k (players (snd e)))"
  by (auto simp: disconnect_game_def Let_def split: option.splits)

lemma map_get_disconnect:
  "map_get (map (\<lambda>e. fst (disconnect_game sock e)) gs) gid
     = map_option (\<lambda>g. snd (fst (disconnect_game sock (gid, g)))) (map_get gs gid)"
proof (induction gs)
  case Nil
  show ?case by (simp add: map_get_def)
next
  case (Cons e gs)
  obtain k g where e: "e = (k, g)" by (cases e)
  obtain g' where g': "fst (disconnect_game sock (k, g)) = (k, g')"
    using disconnect_game_fst [of sock "(k, g)"] by (cases "fst (disconnect_game sock (k, g))") simp
  with Cons show ?case
    by (simp add: map_get_def e)
qed

lemma disconnect_nonlobby:
  assumes "map_get (games s) gid = Some g" and "status g \<noteq> Lobby"
  shows "\<exists>g'. map_get (games (fst (disconnect sock s))) gid = Some g'
           \<and> status g' = status g \<and> length (players g') \<le> length (players g)
           \<and> set (map_keys (players g')) \<subseteq> set (map_keys (players g))"
proof -
  let ?g' = "snd (fst (disconnect_game sock (gid, g)))"
  have "map_get (games (fst (disconnect sock s))) gid = Some ?g'"
    using assms(1) by (simp add: disconnect_def Let_def comp_def map_get_disconnect)
  moreover have "status ?g' = status g"
    using disconnect_game_status [of sock "(gid, g)"] by simp
  moreover have "length (players ?g') \<le> length (players g)
                 \<and> set (map_keys (players ?g')) \<subseteq> set (map_keys (players g))"
    using disconnect_game_players [of sock "(gid, g)"]
    by (auto simp: map_delete_def map_keys_def)
  ultimately show ?thesis by blast
qed

lemma step_no_join_ok:
  assumes "map_get (games s) gid = Some g" and "status g \<noteq> Lobby"
  shows "\<forall>m \<in> set (snd (step now e s)). \<not> join_ok_for gid m"
proof (cases e)
  case (JoinGame sock u pg a rnd)
  with join_game_nonlobby [OF assms] show ?thesis by simp
next
  case (StartGame sock pg a)
  then show ?thesis
    by (auto simp: start_game_def Let_def send_ack_def split: prod.splits if_splits)
next
  case (Tap sock pg pp)
  then show ?thesis
    by (auto simp: tap_def Let_def split: option.splits if_splits)
next
  case (Disconnect sock)
  then show ?thesis
    by (auto simp: disconnect_def disconnect_game_def Let_def split: option.splits if_splits)
next
  case (TimerFire h)
  then show ?thesis
    by (auto simp: timer_fire_def end_game_callback_def Let_def split: option.splits prod.splits)
next
  case GetLeaderboard
  then show ?thesis by (simp add: leaderboard_def)
qed

lemma step_nonlobby:
  assumes "map_get (games s) gid = Some g" and "status g \<noteq> Lobby"
  shows "\<exists>g'. map_get (games (fst (step now e s))) gid = Some g'
           \<and> status g' \<noteq> Lobby
           \<and> length (players g') \<le> length (players g)
           \<and> set (map_keys (players g')) \<subseteq> set (map_keys (players g))
           \<and> (\<not> is_disconnect e \<longrightarrow> map_keys (players g') = map_keys (players g))"
proof -
  have keys: "length (players g') \<le> length (players g)
              \<and> set (map_keys (players g')) \<subseteq> set (map_keys (players g))"
    if "map_keys (players g') = map_keys (players g)" for g' :: game
    using arg_cong [OF that, of length] that by (simp add: map_keys_def)
  show ?thesis
  proof (cases e)
    case (JoinGame sock u pg a rnd)
    with join_game_nonlobby [OF assms, of sock u pg a rnd now] assms(2) show ?thesis by simp
  next
    case (StartGame sock pg a)
    with start_game_nonlobby [OF assms, of sock pg a now] keys show ?thesis by auto
  next
    case (Tap sock pg pp)
    with tap_nonlobby [OF assms, of sock pg pp now] keys show ?thesis by auto
  next
    case (Disconnect sock)
    with disconnect_nonlobby [OF assms, of sock] assms(2) show ?thesis by auto
  next
    case (TimerFire h)
    with timer_fire_nonlobby [OF assms, of h now] keys show ?thesis by auto
  next
    case GetLeaderboard
    with assms show ?thesis by (simp add: leaderboard_def)
  qed
qed

text \<open>
  C10. A room that is not in Lobby is never in Lobby again: whatever events follow, the room
  is still registered and not in Lobby, no join for it is acknowledged as accepted, its roster
  has no more entries than before and no new keys, and when no disconnect is among the events
  the roster has the same keys in the same order.
\<close>

theorem left_lobby_forever:
  assumes "map_get (games s) gid = Some g" and "status g \<noteq> Lobby"
  shows "\<exists>g'. map_get (games (run es s)) gid = Some g'
           \<and> status g' \<noteq> Lobby
           \<and> length (players g') \<le> length (players g)
           \<and> set (map_keys (players g')) \<subseteq> set (map_keys (players g))
           \<and> (list_all (\<lambda>e. \<not> is_disconnect (snd e)) es \<longrightarrow>
                 map_keys (players g') = map_keys (players g))
           \<and> (\<forall>m \<in> set (run_outs es s). \<not> join_ok_for gid m)"
  using assms
proof (induction es arbitrary: s g)
  case Nil
  then show ?case by simp
next
  case (Cons e es)
  let ?s1 = "fst (step (fst e) (snd e) s)"
  from step_nonlobby [OF Cons.prems, of "fst e" "snd e"]
  obtain g1 where g1: "map_get (games ?s1) gid = Some g1" "status g1 \<noteq> Lobby"
      "length (players g1) \<le> length (players g)"
      "set (map_keys (players g1)) \<subseteq> set (map_keys (players g))"
      "\<not> is_disconnect (snd e) \<longrightarrow> map_keys (players g1) = map_keys (players g)"
    by blast
  from Cons.IH [OF g1(1,2)]
  obtain g' where g': "map_get (games (run es ?s1)) gid = Some g'" "status g' \<noteq> Lobby"
      "length (players g') \<le> length (players g1)"
      "set (map_keys (players g')) \<subseteq> set (map_keys (players g1))"
      "list_all (\<lambda>e. \<not> is_disconnect (snd e)) es \<longrightarrow> map_keys (players g') = map_keys (players g1)"
      "\<forall>m \<in> set (run_outs es ?s1). \<not> join_ok_for gid m"
    by blast
  have outs: "\<forall>m \<in> set (run_outs (e # es) s). \<not> join_ok_for gid m"
    using step_no_join_ok [OF Cons.prems, of "fst e" "snd e"] g'(6) by auto
  have "map_get (games (run (e # es) s)) gid = Some g'" using g'(1) by simp
  moreover have "length (players g') \<le> length (players g)" using g1(3) g'(3) by simp
  moreover have "set (map_keys (players g')) \<subseteq> set (map_keys (players g))"
    using g1(4) g'(4) by blast
  moreover have "list_all (\<lambda>e. \<not> is_disconnect (snd e)) (e # es) \<longrightarrow>
                   map_keys (players g') = map_keys (players g)"
    using g1(5) g'(5) by simp
  ultimately show ?case using g'(2) outs by blast
qed

text \<open>
  In the started example the late joins of Carl and Dora are refused, Alice's disconnect
  shrinks the roster, and the room ends the run Ended.
\<close>

theorem left_lobby_forever_witness:
  "\<exists>g'. map_get (games (run ex_late_events ex_running)) ''default'' = Some g'
         \<and> status g' \<noteq> Lobby \<and> length (players g') \<le> 2
         \<and> status g' = Ended \<and> map_keys (players g') = [''player_bbbbbbbb2t'']"
proof -
  let ?g = "\<lparr>status = Running,
          players =
            [(''player_aaaaaaaa2s'',
              \<lparr>playerId = ''player_aaaaaaaa2s'', username = ''alice'', socketId = ''A'', taps = 0\<rparr>),
             (''player_bbbbbbbb2t'',
              \<lparr>playerId = ''player_bbbbbbbb2t'', username = ''bob'', socketId = ''B'', taps = 0\<rparr>)],
          startTime = Some 200, endTime = Some 15200, timeoutHandle = Some 0\<rparr>"
  have 1: "map_get (games ex_running) ''default'' = Some ?g"
    by (simp add: ex_running_eq map_get_def)
  have 2: "status ?g \<noteq> Lobby" by simp
  from left_lobby_forever [OF 1 2, of ex_late_events]
  obtain g' where "map_get (games (run ex_late_events ex_running)) ''default'' = Some g'"
      "status g' \<noteq> Lobby" "length (players g') \<le> length (players ?g)"
    by blast
  moreover have "map_get (games (run ex_late_events ex_running)) ''default''
      = Some \<lparr>status = Ended,
          players =
            [(''player_bbbbbbbb2t'',
              \<lparr>playerId = ''player_bbbbbbbb2t'', username = ''bob'', socketId = ''B'', taps = 0\<rparr>)],
          startTime = Some 200, endTime = Some 15200, timeoutHandle = Some 0\<rparr>"
    by code_simp
  ultimately show ?thesis by (auto simp: map_keys_def)
qed

subsection \<open>The end-of-round timer\<close>

lemma timers_ok_distinct: "timers_ok s \<Longrightarrow> distinct (map t_handle (timers s))"
  unfolding timers_ok_def by blast

lemma timers_ok_pending:
  "timers_ok s \<Longrightarrow> t \<in> set (timers s) \<Longrightarrow>
     \<exists>g. map_get (games s) (t_gameId t) = Some g \<and> status g = Running
         \<and> timeoutHandle g = Some (t_handle t)"
  unfolding timers_ok_def by blast

lemma timers_ok_running:
  "timers_ok s \<Longrightarrow> map_get (games s) gid = Some g \<Longrightarrow> status g = Running \<Longrightarrow>
     \<exists>t \<in> set (timers s). t_gameId t = gid \<and> timeoutHandle g = Some (t_handle t)"
  unfolding timers_ok_def by blast

lemma timers_ok_below:
  "timers_ok s \<Longrightarrow> map_get (games s) gid = Some g \<Longrightarrow> timeoutHandle g = Some h \<Longrightarrow>
     h < nextHandle s"
  unfolding timers_ok_def by blast

lemma timers_ok_unique:
  "timers_ok s \<Longrightarrow> map_get (games s) gid = Some g \<Longrightarrow> map_get (games s) gid' = Some g' \<Longrightarrow>
     timeoutHandle g = Some h \<Longrightarrow> timeoutHandle g' = Some h \<Longrightarrow> gid = gid'"
  unfolding timers_ok_def by blast

lemma timers_okI:
  assumes "distinct (map t_handle (timers s))"
    and "\<And>t. t \<in> set (timers s) \<Longrightarrow>
            \<exists>g. map_get (games s) (t_gameId t) = Some g \<and> status g = Running
                \<and> timeoutHandle g = Some (t_handle t)"
    and "\<And>gid g. map_get (games s) gid = Some g \<Longrightarrow> status g = Running \<Longrightarrow>
            \<exists>t \<in> set (timers s). t_gameId t = gid \<and> timeoutHandle g = Some (t_handle t)"
    and "\<And>gid g h. map_get (games s) gid = Some g \<Longrightarrow> timeoutHandle g = Some h \<Longrightarrow>
            h < nextHandle s"
    and "\<And>gid g gid' g' h. map_get (games s) gid = Some g \<Longrightarrow> map_get (games s) gid' = Some g' \<Longrightarrow>
            timeoutHandle g = Some h \<Longrightarrow> timeoutHandle g' = Some h \<Longrightarrow> gid = gid'"
  shows "timers_ok s"
  unfolding timers_ok_def using assms by blast

lemma same_timing_old:
  "same_timing gs gs' \<Longrightarrow> map_get gs gid = Some g \<Longrightarrow>
     \<exists>g'. map_get gs' gid = Some g' \<and> status g' = status g \<and> timeoutHandle g' = timeoutHandle g"
  unfolding same_timing_def by blast

lemma same_timing_new:
  "same_timing gs gs' \<Longrightarrow> map_get gs' gid = Some g' \<Longrightarrow> map_get gs gid = None \<Longrightarrow>
     status g' = Lobby \<and> timeoutHandle g' = None"
  unfolding same_timing_def by blast

text \<open>Going back from the second registry: a room of it that is Running or holds a handle
  is a room of the first, with the same status and handle.\<close>

lemma same_timing_back:
  assumes st: "same_timing gs gs'" and g': "map_get gs' gid = Some g'"
    and live: "status g' = Running \<or> timeoutHandle g' \<noteq> None"
  shows "\<exists>g. map_get gs gid = Some g \<and> status g = status g' \<and> timeoutHandle g = timeoutHandle g'"
proof (cases "map_get gs gid")
  case None
  from same_timing_new [OF st g' None] live show ?thesis by auto
next
  case (Some g)
  from same_timing_old [OF st Some] g' show ?thesis by (auto simp: Some)
qed

lemma timers_ok_same_timing:
  assumes ok: "timers_ok s" and st: "same_timing (games s) (games s')"
    and t: "timers s' = timers s" and n: "nextHandle s' = nextHandle s"
  shows "timers_ok s'"
proof (rule timers_okI)
  show "distinct (map t_handle (timers s'))"
    using timers_ok_distinct [OF ok] t by simp
next
  fix t' assume "t' \<in> set (timers s')"
  then have "t' \<in> set (timers s)" using t by simp
  from timers_ok_pending [OF ok this]
  obtain g where g: "map_get (games s) (t_gameId t') = Some g"
      "status g = Running" "timeoutHandle g = Some (t_handle t')"
    by blast
  from same_timing_old [OF st g(1)] g(2,3)
  show "\<exists>g. map_get (games s') (t_gameId t') = Some g \<and> status g = Running
              \<and> timeoutHandle g = Some (t_handle t')"
    by auto
next
  fix gid g assume g: "map_get (games s') gid = Some g" "status g = Running"
  from same_timing_back [OF st g(1)] g(2)
  obtain g0 where g0: "map_get (games s) gid = Some g0" "status g0 = Running"
      "timeoutHandle g0 = timeoutHandle g"
    by auto
  from timers_ok_running [OF ok g0(1,2)] g0(3) t
  show "\<exists>t \<in> set (timers s'). t_gameId t = gid \<and> timeoutHandle g = Some (t_handle t)"
    by auto
next
  fix gid g h assume g: "map_get (games s') gid = Some g" "timeoutHandle g = Some h"
  from same_timing_back [OF st g(1)] g(2)
  obtain g0 where "map_get (games s) gid = Some g0" "timeoutHandle g0 = Some h"
    by auto
  from timers_ok_below [OF ok this] n show "h < nextHandle s'" by simp
next
  fix gid g gid' g' h
  assume g: "map_get (games s') gid = Some g" "timeoutHandle g = Some h"
    and g': "map_get (games s') gid' = Some g'" "timeoutHandle g' = Some h"
  from same_timing_back [OF st g(1)] g(2)
  obtain g0 where g0: "map_get (games s) gid = Some g0" "timeoutHandle g0 = Some h"
    by auto
  from same_timing_back [OF st g'(1)] g'(2)
  obtain g0' where g0': "map_get (games s) gid' = Some g0'" "timeoutHandle g0' = Some h"
    by auto
  from timers_ok_unique [OF ok g0(1) g0'(1) g0(2) g0'(2)] show "gid = gid'" .
qed

lemma same_timing_refl: "same_timing gs gs"
  by (auto simp: same_timing_def)

lemma map_set_idem: "map_get m k = Some v \<Longrightarrow> map_set k v m = m"
  by (induction m) (auto simp: map_get_def split: if_splits)

lemma same_timingI:
  assumes "\<And>gid g. map_get gs gid = Some g \<Longrightarrow>
             \<exists>g'. map_get gs' gid = Some g' \<and> status g' = status g
                   \<and> timeoutHandle g' = timeoutHandle g"
    and "\<And>gid g'. map_get gs' gid = Some g' \<Longrightarrow> map_get gs gid = None \<Longrightarrow>
             status g' = Lobby \<and> timeoutHandle g' = None"
  shows "same_timing gs gs'"
  unfolding same_timing_def using assms by blast

lemma same_timing_create_set:
  assumes c: "createGameIfMissing gid gs = (gs1, g)"
    and g': "status g' = status g" "timeoutHandle g' = timeoutHandle g"
  shows "same_timing gs (map_set gid g' gs1)"
proof (rule same_timingI)
  fix k g0 assume k: "map_get gs k = Some g0"
  show "\<exists>g1. map_get (map_set gid g' gs1) k = Some g1 \<and> status g1 = status g0
              \<and> timeoutHandle g1 = timeoutHandle g0"
  proof (cases "k = gid")
    case True
    with k c have "g = g0" by (simp add: createGameIfMissing_def)
    with True g' show ?thesis by simp
  next
    case False
    with k c show ?thesis
      by (auto simp: createGameIfMissing_def split: option.splits)
  qed
next
  fix k g1 assume k: "map_get (map_set gid g' gs1) k = Some g1" "map_get gs k = None"
  show "status g1 = Lobby \<and> timeoutHandle g1 = None"
  proof (cases "k = gid")
    case True
    with k c have "g = new_game" "g1 = g'" by (auto simp: createGameIfMissing_def)
    with g' show ?thesis by (simp add: new_game_def)
  next
    case False
    with k c show ?thesis
      by (auto simp: createGameIfMissing_def split: option.splits)
  qed
qed

lemma same_timing_create:
  assumes c: "createGameIfMissing gid gs = (gs1, g)"
  shows "same_timing gs gs1"
proof -
  have "map_set gid g gs1 = gs1"
    using c by (auto simp: createGameIfMissing_def map_set_idem split: option.splits)
  with same_timing_create_set [OF c refl refl] show ?thesis by simp
qed

lemma same_timing_join_game:
  "same_timing (games s) (games (fst (join_game sock u pg a rnd now s)))"
proof -
  obtain gs g where c: "createGameIfMissing (str_or pg ''default'') (games s) = (gs, g)"
    by (cases "createGameIfMissing (str_or pg ''default'') (games s)")
  show ?thesis
    using same_timing_create [OF c]
      same_timing_create_set [OF c, of "g\<lparr>players := ps\<rparr>" for ps]
    by (simp add: join_game_def Let_def c same_timing_refl)
qed

lemma same_timing_tap:
  "same_timing (games s) (games (fst (tap sock pg pp now s)))"
proof -
  have "same_timing (games s) (map_set gid (g\<lparr>players := ps\<rparr>) (games s))"
    if "map_get (games s) gid = Some g" for gid g ps
    using same_timing_create_set [of gid "games s" "games s" g "g\<lparr>players := ps\<rparr>"] that
    by (simp add: createGameIfMissing_present)
  then show ?thesis
    by (auto simp: tap_def Let_def same_timing_refl split: option.splits)
qed

lemma disconnect_game_timing:
  "status (snd (fst (disconnect_game sock e))) = status (snd e)
   \<and> timeoutHandle (snd (fst (disconnect_game sock e))) = timeoutHandle (snd e)
   \<and> startTime (snd (fst (disconnect_game sock e))) = startTime (snd e)
   \<and> endTime (snd (fst (disconnect_game sock e))) = endTime (snd e)"
  by (simp add: disconnect_game_def Let_def split: option.splits)

lemma same_timing_disconnect:
  "same_timing (games s) (games (fst (disconnect sock s)))"
proof (rule same_timingI)
  fix gid g assume "map_get (games s) gid = Some g"
  then show "\<exists>g'. map_get (games (fst (disconnect sock s))) gid = Some g'
               \<and> status g' = status g \<and> timeoutHandle g' = timeoutHandle g"
    using disconnect_game_timing [of sock "(gid, g)"]
    by (simp add: disconnect_def Let_def comp_def map_get_disconnect)
next
  fix gid g' assume "map_get (games (fst (disconnect sock s))) gid = Some g'"
    and "map_get (games s) gid = None"
  then show "status g' = Lobby \<and> timeoutHandle g' = None"
    by (simp add: disconnect_def Let_def comp_def map_get_disconnect)
qed

lemma createGameIfMissing_get:
  "createGameIfMissing gid gs = (gs1, g) \<Longrightarrow> map_get gs1 gid = Some g"
  by (auto simp: createGameIfMissing_def split: option.splits)

lemma createGameIfMissing_other:
  "createGameIfMissing gid gs = (gs1, g) \<Longrightarrow> k \<noteq> gid \<Longrightarrow> map_get gs1 k = map_get gs k"
  by (auto simp: createGameIfMissing_def split: option.splits)

lemma createGameIfMissing_cases:
  "createGameIfMissing gid gs = (gs1, g) \<Longrightarrow>
     map_get gs gid = Some g \<or> (map_get gs gid = None \<and> g = new_game)"
  by (auto simp: createGameIfMissing_def split: option.splits)

lemma start_game_fail:
  assumes "createGameIfMissing (str_or pg ''default'') (games s) = (gs, g)"
    and "status g = Running \<or> players g = []"
  shows "fst (start_game sock pg a now s) = s\<lparr>games := gs\<rparr>"
  using assms by (auto simp: start_game_def Let_def)

lemma start_game_ok:
  assumes "createGameIfMissing (str_or pg ''default'') (games s) = (gs, g)"
    and "status g \<noteq> Running" and "players g \<noteq> []"
  shows "fst (start_game sock pg a now s) =
           s\<lparr>games := map_set (str_or pg ''default'')
                        (g\<lparr>status := Running,
                           players := map (\<lambda>(k, p). (k, p\<lparr>taps := 0\<rparr>)) (players g),
                           startTime := Some now, endTime := Some (now + TAP_WINDOW_MS),
                           timeoutHandle := Some (nextHandle s)\<rparr>) gs,
              timers := (case timeoutHandle g of None \<Rightarrow> timers s
                         | Some h \<Rightarrow> clearTimeout h (timers s))
                        @ [\<lparr>t_handle = nextHandle s, t_gameId = str_or pg ''default'',
                             t_delayMs = TAP_WINDOW_MS + 5\<rparr>],
              nextHandle := Suc (nextHandle s)\<rparr>"
  using assms by (simp add: start_game_def Let_def)

lemma timers_ok_start_game:
  assumes ok: "timers_ok s"
  shows "timers_ok (fst (start_game sock pg a now s))"
proof -
  let ?gid = "str_or pg ''default''"
  obtain gs g where c: "createGameIfMissing ?gid (games s) = (gs, g)"
    by (cases "createGameIfMissing ?gid (games s)")
  show ?thesis
  proof (cases "status g = Running \<or> players g = []")
    case True
    have "timers_ok (s\<lparr>games := gs\<rparr>)"
      by (rule timers_ok_same_timing [OF ok]) (simp_all add: same_timing_create [OF c])
    with start_game_fail [OF c True] show ?thesis by simp
  next
    case False
    let ?g' = "g\<lparr>status := Running,
                  players := map (\<lambda>(k, p). (k, p\<lparr>taps := 0\<rparr>)) (players g),
                  startTime := Some now, endTime := Some (now + TAP_WINDOW_MS),
                  timeoutHandle := Some (nextHandle s)\<rparr>"
    let ?new = "\<lparr>t_handle = nextHandle s, t_gameId = ?gid, t_delayMs = TAP_WINDOW_MS + 5\<rparr>"
    let ?ts = "case timeoutHandle g of None \<Rightarrow> timers s | Some h \<Rightarrow> clearTimeout h (timers s)"
    let ?s' = "s\<lparr>games := map_set ?gid ?g' gs, timers := ?ts @ [?new],
                  nextHandle := Suc (nextHandle s)\<rparr>"
    have s': "fst (start_game sock pg a now s) = ?s'"
      using start_game_ok [OF c] False by simp
    have here: "map_get (games ?s') ?gid = Some ?g'" by simp
    have other: "map_get (games ?s') k = map_get (games s) k" if "k \<noteq> ?gid" for k
      using that createGameIfMissing_other [OF c that] by simp
    have no_timer: "t_gameId t \<noteq> ?gid" if t: "t \<in> set (timers s)" for t
    proof
      assume eq: "t_gameId t = ?gid"
      from timers_ok_pending [OF ok t] eq
      obtain g0 where g0: "map_get (games s) ?gid = Some g0" "status g0 = Running" by auto
      with c have "g = g0" by (simp add: createGameIfMissing_present)
      with g0 False show False by simp
    qed
    have ts: "?ts = timers s"
    proof (cases "timeoutHandle g")
      case None
      then show ?thesis by simp
    next
      case (Some h)
      have "t_handle t \<noteq> h" if t: "t \<in> set (timers s)" for t
      proof
        assume eq: "t_handle t = h"
        from timers_ok_pending [OF ok t] eq
        obtain g2 where g2: "map_get (games s) (t_gameId t) = Some g2" "timeoutHandle g2 = Some h"
          by auto
        from createGameIfMissing_cases [OF c] Some
        have "map_get (games s) ?gid = Some g" by (auto simp: new_game_def)
        from timers_ok_unique [OF ok g2(1) this g2(2) Some] no_timer [OF t]
        show False by simp
      qed
      then show ?thesis by (simp add: Some clearTimeout_def)
    qed
    have below: "t_handle t < nextHandle s" if t: "t \<in> set (timers s)" for t
    proof -
      from timers_ok_pending [OF ok t]
      obtain g2 where "map_get (games s) (t_gameId t) = Some g2"
          "timeoutHandle g2 = Some (t_handle t)" by auto
      then show ?thesis by (rule timers_ok_below [OF ok])
    qed
    have "timers_ok ?s'"
    proof (rule timers_okI)
      have "nextHandle s \<notin> set (map t_handle (timers s))"
      proof
        assume "nextHandle s \<in> set (map t_handle (timers s))"
        then obtain t where "t \<in> set (timers s)" "t_handle t = nextHandle s" by auto
        with below [of t] show False by simp
      qed
      with timers_ok_distinct [OF ok] show "distinct (map t_handle (timers ?s'))"
        by (simp add: ts)
    next
      fix t assume "t \<in> set (timers ?s')"
      then consider "t \<in> set (timers s)" | "t = ?new" by (auto simp: ts)
      then show "\<exists>g. map_get (games ?s') (t_gameId t) = Some g \<and> status g = Running
                      \<and> timeoutHandle g = Some (t_handle t)"
      proof cases
        case 1
        from timers_ok_pending [OF ok 1] other [OF no_timer [OF 1]] show ?thesis by simp
      next
        case 2
        with here show ?thesis by simp
      qed
    next
      fix k g1 assume g1: "map_get (games ?s') k = Some g1" "status g1 = Running"
      show "\<exists>t \<in> set (timers ?s'). t_gameId t = k \<and> timeoutHandle g1 = Some (t_handle t)"
      proof (cases "k = ?gid")
        case True
        with g1 here show ?thesis by (auto simp: ts)
      next
        case False
        with g1 other have "map_get (games s) k = Some g1" by simp
        from timers_ok_running [OF ok this g1(2)] show ?thesis by (auto simp: ts)
      qed
    next
      fix k g1 h assume g1: "map_get (games ?s') k = Some g1" "timeoutHandle g1 = Some h"
      show "h < nextHandle ?s'"
      proof (cases "k = ?gid")
        case True
        with g1 here show ?thesis by auto
      next
        case False
        with g1 other have "map_get (games s) k = Some g1" by simp
        from timers_ok_below [OF ok this g1(2)] show ?thesis by simp
      qed
    next
      fix k g1 k' g1' h
      assume g1: "map_get (games ?s') k = Some g1" "timeoutHandle g1 = Some h"
        and g1': "map_get (games ?s') k' = Some g1'" "timeoutHandle g1' = Some h"
      have old: "h < nextHandle s" if "j \<noteq> ?gid" "map_get (games ?s') j = Some gj"
          "timeoutHandle gj = Some h" for j gj
        using that other [OF that(1)] timers_ok_below [OF ok, of j gj h] by simp
      have new: "h = nextHandle s" if "map_get (games ?s') ?gid = Some gj"
          "timeoutHandle gj = Some h" for gj
        using that here by auto
      show "k = k'"
      proof (cases "k = ?gid")
        case True
        show ?thesis
        proof (rule ccontr)
          assume "k \<noteq> k'"
          with True have "k' \<noteq> ?gid" by simp
          from old [OF this g1'] new [of g1] g1 True show False by simp
        qed
      next
        case False
        show ?thesis
        proof (cases "k' = ?gid")
          case True
          from old [OF False g1] new [of g1'] g1' True show ?thesis by simp
        next
          case k': False
          from g1 g1' other [OF False] other [OF k']
          have "map_get (games s) k = Some g1" "map_get (games s) k' = Some g1'" by simp_all
          from timers_ok_unique [OF ok this g1(2) g1'(2)] show ?thesis .
        qed
      qed
    qed
    with s' show ?thesis by simp
  qed
qed

lemma timers_ok_timer_fire:
  assumes ok: "timers_ok s"
  shows "timers_ok (fst (timer_fire h now s))"
proof (cases "find (\<lambda>t. t_handle t = h) (timers s)")
  case None
  with ok show ?thesis by (simp add: timer_fire_def)
next
  case (Some t)
  then have t: "t \<in> set (timers s)" "t_handle t = h"
    by (auto simp: find_Some_iff)
  let ?gid = "t_gameId t"
  from timers_ok_pending [OF ok t(1)] t(2)
  obtain g where g: "map_get (games s) ?gid = Some g" "status g = Running"
      "timeoutHandle g = Some h" by auto
  let ?g' = "g\<lparr>status := Ended\<rparr>"
  let ?s' = "s\<lparr>timers := clearTimeout h (timers s), games := map_set ?gid ?g' (games s),
                recentGames := recordGameToLeaderboard ?gid ?g' now (recentGames s)\<rparr>"
  have s': "fst (timer_fire h now s) = ?s'"
    using Some g by (simp add: timer_fire_def end_game_callback_def Let_def split: prod.splits)
  have here: "map_get (games ?s') ?gid = Some ?g'" by simp
  have other: "map_get (games ?s') k = map_get (games s) k" if "k \<noteq> ?gid" for k
    using that by simp
  have left: "set (timers ?s') = {u \<in> set (timers s). t_handle u \<noteq> h}"
    by (auto simp: clearTimeout_def)
  have "timers_ok ?s'"
  proof (rule timers_okI)
    show "distinct (map t_handle (timers ?s'))"
      using timers_ok_distinct [OF ok] by (simp add: clearTimeout_def distinct_map_filter)
  next
    fix u assume "u \<in> set (timers ?s')"
    with left have u: "u \<in> set (timers s)" "t_handle u \<noteq> h" by auto
    from timers_ok_pending [OF ok u(1)]
    obtain gu where gu: "map_get (games s) (t_gameId u) = Some gu" "status gu = Running"
        "timeoutHandle gu = Some (t_handle u)" by auto
    have "t_gameId u \<noteq> ?gid"
    proof
      assume "t_gameId u = ?gid"
      with gu g u(2) show False by simp
    qed
    from other [OF this] gu
    show "\<exists>g. map_get (games ?s') (t_gameId u) = Some g \<and> status g = Running
              \<and> timeoutHandle g = Some (t_handle u)"
      by simp
  next
    fix k g1 assume g1: "map_get (games ?s') k = Some g1" "status g1 = Running"
    have k: "k \<noteq> ?gid"
    proof
      assume "k = ?gid"
      with g1 here show False by auto
    qed
    with g1 other have old: "map_get (games s) k = Some g1" by simp
    from timers_ok_running [OF ok old g1(2)]
    obtain u where u: "u \<in> set (timers s)" "t_gameId u = k" "timeoutHandle g1 = Some (t_handle u)"
      by auto
    have "t_handle u \<noteq> h"
    proof
      assume "t_handle u = h"
      with u have "timeoutHandle g1 = Some h" by simp
      from timers_ok_unique [OF ok old g(1) this g(3)] k show False by simp
    qed
    with u left
    show "\<exists>u \<in> set (timers ?s'). t_gameId u = k \<and> timeoutHandle g1 = Some (t_handle u)"
      by auto
  next
    fix k g1 h1 assume g1: "map_get (games ?s') k = Some g1" "timeoutHandle g1 = Some h1"
    show "h1 < nextHandle ?s'"
    proof (cases "k = ?gid")
      case True
      with g1 here have "h1 = h" using g(3) by auto
      with timers_ok_below [OF ok g(1) g(3)] show ?thesis by simp
    next
      case False
      with g1 other have "map_get (games s) k = Some g1" by simp
      from timers_ok_below [OF ok this g1(2)] show ?thesis by simp
    qed
  next
    fix k g1 k' g1' h1
    assume g1: "map_get (games ?s') k = Some g1" "timeoutHandle g1 = Some h1"
      and g1': "map_get (games ?s') k' = Some g1'" "timeoutHandle g1' = Some h1"
    have orig: "\<exists>g0. map_get (games s) j = Some g0 \<and> timeoutHandle g0 = Some h1"
      if "map_get (games ?s') j = Some gj" "timeoutHandle gj = Some h1" for j gj
    proof (cases "j = ?gid")
      case True
      with that here g show ?thesis by auto
    next
      case False
      with that other show ?thesis by simp
    qed
    from orig [OF g1] obtain g0 where g0: "map_get (games s) k = Some g0"
        "timeoutHandle g0 = Some h1" by auto
    from orig [OF g1'] obtain g0' where g0': "map_get (games s) k' = Some g0'"
        "timeoutHandle g0' = Some h1" by auto
    from timers_ok_unique [OF ok g0(1) g0'(1) g0(2) g0'(2)] show "k = k'" .
  qed
  with s' show ?thesis by simp
qed

lemma timers_ok_step:
  assumes ok: "timers_ok s"
  shows "timers_ok (fst (step now e s))"
proof (cases e)
  case (JoinGame sock u pg a rnd)
  have "timers_ok (fst (join_game sock u pg a rnd now s))"
    by (rule timers_ok_same_timing [OF ok same_timing_join_game])
       (simp_all add: join_game_def Let_def split: prod.splits)
  with JoinGame show ?thesis by simp
next
  case (StartGame sock pg a)
  with timers_ok_start_game [OF ok] show ?thesis by simp
next
  case (Tap sock pg pp)
  have "timers_ok (fst (tap sock pg pp now s))"
    by (rule timers_ok_same_timing [OF ok same_timing_tap])
       (simp_all add: tap_def Let_def split: option.splits)
  with Tap show ?thesis by simp
next
  case (Disconnect sock)
  have "timers_ok (fst (disconnect sock s))"
    by (rule timers_ok_same_timing [OF ok same_timing_disconnect])
       (simp_all add: disconnect_def Let_def)
  with Disconnect show ?thesis by simp
next
  case (TimerFire h)
  with timers_ok_timer_fire [OF ok] show ?thesis by simp
next
  case GetLeaderboard
  with ok show ?thesis by (simp add: leaderboard_def)
qed

lemma reachable_timers_ok: "reachable s \<Longrightarrow> timers_ok s"
proof (induction rule: reachable.induct)
  case reachable_init
  show ?case by (simp add: timers_ok_def init_server_def map_get_def)
next
  case (reachable_step s now e)
  then show ?case by (simp add: timers_ok_step)
qed

lemma reachable_ex_running: "reachable ex_running"
  unfolding ex_running_def ex_lobby_def
  by (intro reachable_run reachable_init)

lemma find_pending_timer:
  assumes ok: "timers_ok s" and t: "t \<in> set (timers s)"
  shows "find (\<lambda>u. t_handle u = t_handle t) (timers s) = Some t"
proof (cases "find (\<lambda>u. t_handle u = t_handle t) (timers s)")
  case None
  with t show ?thesis by (auto simp: find_None_iff)
next
  case (Some u)
  then have u: "u \<in> set (timers s)" "t_handle u = t_handle t"
    by (auto simp: find_Some_iff)
  from timers_ok_distinct [OF ok] have "inj_on t_handle (set (timers s))"
    by (simp add: distinct_map)
  with u t have "u = t" by (auto dest: inj_onD)
  with Some show ?thesis by simp
qed

lemma timer_fire_idem:
  "timer_fire h now' (fst (timer_fire h now s)) = (fst (timer_fire h now s), [])"
proof -
  have "find (\<lambda>u. t_handle u = h) (timers (fst (timer_fire h now s))) = None"
    by (auto simp: timer_fire_def end_game_callback_def Let_def clearTimeout_def find_None_iff
          split: option.splits prod.splits)
  then show ?thesis by (simp add: timer_fire_def)
qed

text \<open>
  C3. The end of a round is the callback of the room's timer, and the timer is the only
  thing that runs it. Ending is idempotent: whatever the state and the handle, a timer that has
  fired and fires again changes nothing and sends nothing. In every reachable state a pending
  timer belongs to a Running room, no two pending timers belong to one room, a room that is
  not Running (so a room that is already Ended) has no timer pending, and every Running room
  has its timer pending. When the timer fires, the room becomes Ended, one \<open>game_results\<close>
  message with the computed result is broadcast, the result is recorded once in the
  leaderboard, and no timer of the room is left pending. So for each Running phase the status
  becomes Ended exactly once, with one result, one broadcast and one record.
\<close>

theorem end_of_round_once:
  assumes re: "reachable s" and t: "t \<in> set (timers s)"
  shows "\<exists>g. map_get (games s) (t_gameId t) = Some g \<and> status g = Running
           \<and> fst (timer_fire (t_handle t) now s) =
               s\<lparr>timers := clearTimeout (t_handle t) (timers s),
                  games := map_set (t_gameId t) (g\<lparr>status := Ended\<rparr>) (games s),
                  recentGames := recordGameToLeaderboard (t_gameId t) (g\<lparr>status := Ended\<rparr>) now
                                   (recentGames s)\<rparr>
           \<and> snd (timer_fire (t_handle t) now s) =
               [Emit (t_gameId t)
                  (GameResults (t_gameId t) (startTime g) (endTime g) TAP_WINDOW_MS
                     (fst (computeResults g)) (snd (computeResults g)))]
           \<and> (\<forall>u \<in> set (timers (fst (timer_fire (t_handle t) now s))). t_gameId u \<noteq> t_gameId t)
           \<and> (\<forall>now'. timer_fire (t_handle t) now' (fst (timer_fire (t_handle t) now s))
                        = (fst (timer_fire (t_handle t) now s), []))
           \<and> (\<forall>u \<in> set (timers s). \<forall>v \<in> set (timers s). t_gameId u = t_gameId v \<longrightarrow> u = v)
           \<and> (\<forall>gid' g'. map_get (games s) gid' = Some g' \<and> status g' = Running \<longrightarrow>
                 (\<exists>u \<in> set (timers s). t_gameId u = gid'))
           \<and> (\<forall>gid' g'. map_get (games s) gid' = Some g' \<and> status g' \<noteq> Running \<longrightarrow>
                 (\<forall>u \<in> set (timers s). t_gameId u \<noteq> gid'))
           \<and> (\<forall>h' n1 n2 s'. timer_fire h' n2 (fst (timer_fire h' n1 s'))
                               = (fst (timer_fire h' n1 s'), []))"
proof -
  from re have ok: "timers_ok s" by (rule reachable_timers_ok)
  have idle: "t_gameId u \<noteq> gid'"
    if "map_get (games s) gid' = Some g'" "status g' \<noteq> Running" "u \<in> set (timers s)"
    for gid' g' u
  proof
    assume "t_gameId u = gid'"
    with timers_ok_pending [OF ok that(3)] that(1,2) show False by auto
  qed
  have armed: "\<exists>u \<in> set (timers s). t_gameId u = gid'"
    if "map_get (games s) gid' = Some g'" "status g' = Running" for gid' g'
    using timers_ok_running [OF ok that] by blast
  from timers_ok_pending [OF ok t]
  obtain g where g: "map_get (games s) (t_gameId t) = Some g" "status g = Running"
      "timeoutHandle g = Some (t_handle t)" by blast
  let ?h = "t_handle t" and ?gid = "t_gameId t"
  let ?r = "timer_fire ?h now s"
  have f: "find (\<lambda>u. t_handle u = ?h) (timers s) = Some t"
    using ok t by (rule find_pending_timer)
  have cr: "computeResults (g\<lparr>status := Ended\<rparr>) = computeResults g"
    by (simp add: computeResults_def)
  have one: "u = v" if u: "u \<in> set (timers s)" and v: "v \<in> set (timers s)"
      and eq: "t_gameId u = t_gameId v" for u v
  proof -
    from timers_ok_pending [OF ok u] timers_ok_pending [OF ok v] eq
    have "t_handle u = t_handle v" by auto
    moreover from timers_ok_distinct [OF ok] have "inj_on t_handle (set (timers s))"
      by (simp add: distinct_map)
    ultimately show ?thesis using u v by (auto dest: inj_onD)
  qed
  have st: "fst ?r = s\<lparr>timers := clearTimeout ?h (timers s),
                  games := map_set ?gid (g\<lparr>status := Ended\<rparr>) (games s),
                  recentGames := recordGameToLeaderboard ?gid (g\<lparr>status := Ended\<rparr>) now
                                   (recentGames s)\<rparr>"
    using f g(1) by (simp add: timer_fire_def end_game_callback_def Let_def split: prod.splits)
  have outs: "snd ?r = [Emit ?gid (GameResults ?gid (startTime g) (endTime g) TAP_WINDOW_MS
                     (fst (computeResults g)) (snd (computeResults g)))]"
    using f g(1) cr
    by (simp add: timer_fire_def end_game_callback_def Let_def split: prod.splits)
  have gone: "t_gameId u \<noteq> ?gid" if "u \<in> set (timers (fst ?r))" for u
  proof
    assume eq: "t_gameId u = ?gid"
    from that have u: "u \<in> set (timers s)" "t_handle u \<noteq> ?h"
      by (auto simp: st clearTimeout_def)
    from one [OF u(1) t eq] u(2) show False by simp
  qed
  have again: "timer_fire ?h now' (fst ?r) = (fst ?r, [])" for now'
  proof -
    have "find (\<lambda>u. t_handle u = ?h) (timers (fst ?r)) = None"
      by (auto simp: st clearTimeout_def find_None_iff)
    then show ?thesis by (simp add: timer_fire_def)
  qed
  have idem: "\<forall>h' n1 n2 s'. timer_fire h' n2 (fst (timer_fire h' n1 s'))
                               = (fst (timer_fire h' n1 s'), [])"
    by (simp add: timer_fire_idem)
  have c5: "\<forall>u \<in> set (timers (fst (timer_fire (t_handle t) now s))). t_gameId u \<noteq> t_gameId t"
    using gone by blast
  have c6: "\<forall>now'. timer_fire (t_handle t) now' (fst (timer_fire (t_handle t) now s))
                        = (fst (timer_fire (t_handle t) now s), [])"
    using again by blast
  have c7: "\<forall>u \<in> set (timers s). \<forall>v \<in> set (timers s). t_gameId u = t_gameId v \<longrightarrow> u = v"
    using one by blast
  have c8: "\<forall>gid' g'. map_get (games s) gid' = Some g' \<and> status g' = Running \<longrightarrow>
                 (\<exists>u \<in> set (timers s). t_gameId u = gid')"
    using armed by blast
  have c9: "\<forall>gid' g'. map_get (games s) gid' = Some g' \<and> status g' \<noteq> Running \<longrightarrow>
                 (\<forall>u \<in> set (timers s). t_gameId u \<noteq> gid')"
    using idle by blast
  show ?thesis
    by (intro exI [of _ g] conjI g(1) g(2) st outs c5 c6 c7 c8 c9 idem)
qed

text \<open>
  In the started example the timer with handle 0 is pending. When it fires the room is Ended,
  one message is sent and one record is kept; a second firing of the handle does nothing.
\<close>

theorem end_of_round_once_witness:
  "(\<exists>g. map_get (games (fst (timer_fire 0 15205 ex_running))) ''default'' = Some g
        \<and> status g = Ended)
   \<and> length (snd (timer_fire 0 15205 ex_running)) = 1
   \<and> length (recentGames (fst (timer_fire 0 15205 ex_running))) = 1
   \<and> timer_fire 0 15300 (fst (timer_fire 0 15205 ex_running))
       = (fst (timer_fire 0 15205 ex_running), [])"
proof -
  let ?t = "\<lparr>t_handle = 0, t_gameId = ''default'', t_delayMs = 15005\<rparr>"
  have t: "?t \<in> set (timers ex_running)"
    by (simp add: ex_running_eq)
  from end_of_round_once [OF reachable_ex_running t, of 15205]
  obtain g where g: "status g = Running"
    and st: "fst (timer_fire 0 15205 ex_running) =
               ex_running\<lparr>timers := clearTimeout 0 (timers ex_running),
                  games := map_set ''default'' (g\<lparr>status := Ended\<rparr>) (games ex_running),
                  recentGames := recordGameToLeaderboard ''default'' (g\<lparr>status := Ended\<rparr>) 15205
                                   (recentGames ex_running)\<rparr>"
    and outs: "snd (timer_fire 0 15205 ex_running) =
               [Emit ''default''
                  (GameResults ''default'' (startTime g) (endTime g) TAP_WINDOW_MS
                     (fst (computeResults g)) (snd (computeResults g)))]"
    and again: "\<forall>now'. timer_fire 0 now' (fst (timer_fire 0 15205 ex_running))
                        = (fst (timer_fire 0 15205 ex_running), [])"
    by auto
  have r: "recentGames ex_running = []" by (simp add: ex_running_eq)
  have 1: "\<exists>g'. map_get (games (fst (timer_fire 0 15205 ex_running))) ''default'' = Some g'
        \<and> status g' = Ended"
    by (simp add: st)
  have 2: "length (snd (timer_fire 0 15205 ex_running)) = 1"
    by (simp add: outs)
  have 3: "length (recentGames (fst (timer_fire 0 15205 ex_running))) = 1"
    by (simp add: st r recordGameToLeaderboard_eq MAX_LEADERBOARD_GAMES_def)
  from again have 4: "timer_fire 0 15300 (fst (timer_fire 0 15205 ex_running))
       = (fst (timer_fire 0 15205 ex_running), [])" by (rule spec)
  show ?thesis by (intro conjI 1 2 3 4)
qed

subsection \<open>Rosters\<close>

lemma roster_map_set_same: "games s = map_set gid g gs \<Longrightarrow> roster s gid = players g"
  by (simp add: roster_def)

lemma roster_other:
  "map_get (games s') gid = map_get (games s) gid \<Longrightarrow> roster s' gid = roster s gid"
  by (simp add: roster_def)

lemma createGameIfMissing_players:
  "createGameIfMissing gid (games s) = (gs, g) \<Longrightarrow> players g = roster s gid"
  by (auto simp: createGameIfMissing_def roster_def new_game_def split: option.splits)

lemma createGameIfMissing_roster:
  "createGameIfMissing gid' (games s) = (gs, g) \<Longrightarrow> roster (s\<lparr>games := gs\<rparr>) gid = roster s gid"
  by (cases "gid = gid'")
     (auto simp: createGameIfMissing_def roster_def new_game_def split: option.splits)

lemma generateId_nonempty: "generateId ''player'' rnd now \<noteq> []"
  by (simp add: generateId_def)

text \<open>What one step can do to the roster of a room.\<close>

lemma join_game_roster:
  "roster (fst (join_game sock u pg a rnd now s)) gid =
     (if str_or pg ''default'' = gid \<and> js_trim (str_or u []) \<noteq> [] \<and> in_lobby s gid
      then map_set (generateId ''player'' rnd now)
             \<lparr>playerId = generateId ''player'' rnd now, username = js_trim (str_or u []),
              socketId = sock, taps = 0\<rparr> (roster s gid)
      else roster s gid)"
proof -
  let ?gid = "str_or pg ''default''"
  obtain gs g where c: "createGameIfMissing ?gid (games s) = (gs, g)"
    by (cases "createGameIfMissing ?gid (games s)")
  have l: "in_lobby s ?gid = (status g = Lobby)"
    using c by (auto simp: createGameIfMissing_def in_lobby_def new_game_def split: option.splits)
  show ?thesis
  proof (cases "?gid = gid")
    case True
    with c l createGameIfMissing_players [OF c] createGameIfMissing_roster [OF c, of gid]
    show ?thesis
      by (auto simp: join_game_def Let_def roster_map_set_same)
  next
    case False
    have "map_get (map_set ?gid g' gs) gid = map_get (games s) gid" for g'
      using False createGameIfMissing_other [OF c, of gid] by simp
    then have "roster (s\<lparr>games := map_set ?gid g' gs\<rparr>) gid = roster s gid" for g'
      by (simp add: roster_def)
    with False c createGameIfMissing_roster [OF c, of gid] show ?thesis
      by (simp add: join_game_def Let_def)
  qed
qed

lemma start_game_roster:
  "roster (fst (start_game sock pg a now s)) gid = roster s gid
   \<or> roster (fst (start_game sock pg a now s)) gid = reset_taps (roster s gid)"
proof -
  let ?gid = "str_or pg ''default''"
  obtain gs g where c: "createGameIfMissing ?gid (games s) = (gs, g)"
    by (cases "createGameIfMissing ?gid (games s)")
  show ?thesis
  proof (cases "status g = Running \<or> players g = []")
    case True
    from start_game_fail [OF c True] createGameIfMissing_roster [OF c, of gid]
    show ?thesis by simp
  next
    case False
    show ?thesis
    proof (cases "?gid = gid")
      case True
      with start_game_ok [OF c] False createGameIfMissing_players [OF c]
      show ?thesis by (simp add: reset_taps_def roster_map_set_same)
    next
      case ne: False
      have "map_get (games (fst (start_game sock pg a now s))) gid = map_get (games s) gid"
        using start_game_ok [OF c] False ne createGameIfMissing_other [OF c, of gid] by simp
      then show ?thesis by (simp add: roster_def)
    qed
  qed
qed

lemma tap_roster:
  "roster (fst (tap sock pg pp now s)) gid = roster s gid
   \<or> (\<exists>pid p. map_get (roster s gid) pid = Some p
         \<and> roster (fst (tap sock pg pp now s)) gid
             = map_set pid (p\<lparr>taps := taps p + 1\<rparr>) (roster s gid))"
proof (cases "str_or pg ''default'' = gid")
  case True
  then show ?thesis
    by (auto simp: tap_def Let_def roster_def split: option.splits)
next
  case False
  then have "map_get (games (fst (tap sock pg pp now s))) gid = map_get (games s) gid"
    by (auto simp: tap_def Let_def split: option.splits)
  then show ?thesis by (simp add: roster_def)
qed

lemma timer_fire_roster: "roster (fst (timer_fire h now s)) gid = roster s gid"
proof (cases "find (\<lambda>t. t_handle t = h) (timers s)")
  case None
  then show ?thesis by (simp add: timer_fire_def)
next
  case (Some t)
  show ?thesis
  proof (cases "t_gameId t = gid")
    case True
    with Some show ?thesis
      by (auto simp: timer_fire_def end_game_callback_def Let_def roster_def
            split: option.splits prod.splits)
  next
    case False
    with Some show ?thesis
      by (auto simp: timer_fire_def end_game_callback_def Let_def roster_def
            split: option.splits prod.splits)
  qed
qed

lemma disconnect_roster:
  "roster (fst (disconnect sock s)) gid =
     (case find (\<lambda>kp. socketId (snd kp) = sock) (roster s gid) of
        None \<Rightarrow> roster s gid
      | Some kp \<Rightarrow> if fst kp = [] then roster s gid else map_delete (fst kp) (roster s gid))"
proof (cases "map_get (games s) gid")
  case None
  then show ?thesis
    by (simp add: roster_def disconnect_def Let_def comp_def map_get_disconnect)
next
  case (Some g)
  then have r: "roster s gid = players g" by (simp add: roster_def)
  from Some have "roster (fst (disconnect sock s)) gid
               = players (snd (fst (disconnect_game sock (gid, g))))"
    by (simp add: roster_def disconnect_def Let_def comp_def map_get_disconnect)
  also have "\<dots> = (case find (\<lambda>kp. socketId (snd kp) = sock) (players g) of
        None \<Rightarrow> players g
      | Some kp \<Rightarrow> if fst kp = [] then players g else map_delete (fst kp) (players g))"
    by (simp add: disconnect_game_def Let_def split: option.splits)
  finally show ?thesis by (simp only: r)
qed

lemma map_set_fresh: "k \<notin> set (map_keys m) \<Longrightarrow> map_set k v m = m @ [(k, v)]"
  by (induction m) (auto simp: map_keys_def)

lemma join_game_in_lobby:
  assumes "in_lobby s gid"
  shows "in_lobby (fst (join_game sock u pg a rnd now s)) gid"
proof (cases "map_get (games (fst (join_game sock u pg a rnd now s))) gid")
  case None
  then show ?thesis by (simp add: in_lobby_def)
next
  case (Some g')
  show ?thesis
  proof (cases "map_get (games s) gid")
    case None
    from same_timing_new [OF same_timing_join_game [of s sock u pg a rnd now] Some None] Some
    show ?thesis
      by (simp add: in_lobby_def)
  next
    case old: (Some g)
    from same_timing_old [OF same_timing_join_game [of s sock u pg a rnd now] old] Some assms old
    show ?thesis
      by (auto simp: in_lobby_def)
  qed
qed

lemma join_game_blank:
  "js_trim (str_or u []) = [] \<Longrightarrow>
     join_game sock u pg a rnd now s = (s, send_ack a sock (AckError ''username_required''))"
  by (simp add: join_game_def Let_def)

lemma join_game_late:
  assumes "js_trim (str_or u []) \<noteq> []" and "\<not> in_lobby s (str_or pg ''default'')"
  shows "join_game sock u pg a rnd now s = (s, send_ack a sock (AckError ''game_already_started''))"
proof -
  from assms(2) obtain g where "map_get (games s) (str_or pg ''default'') = Some g"
      "status g \<noteq> Lobby"
    by (auto simp: in_lobby_def split: option.splits)
  with assms(1) show ?thesis
    by (simp add: join_game_def Let_def createGameIfMissing_present)
qed

lemma join_game_accepted:
  assumes "js_trim (str_or u []) \<noteq> []" and "in_lobby s (str_or pg ''default'')"
  shows "snd (join_game sock u pg a rnd now s) =
           Emit (str_or pg ''default'')
             (LobbyUpdate (str_or pg ''default'')
                (map (\<lambda>p. (playerId p, username p))
                   (map_values (roster (fst (join_game sock u pg a rnd now s))
                      (str_or pg ''default'')))))
           # send_ack a sock (AckJoinOk (generateId ''player'' rnd now) (str_or pg ''default''))"
proof -
  let ?gid = "str_or pg ''default''"
  obtain gs g where c: "createGameIfMissing ?gid (games s) = (gs, g)"
    by (cases "createGameIfMissing ?gid (games s)")
  have "status g = Lobby"
    using c assms(2)
    by (auto simp: createGameIfMissing_def in_lobby_def new_game_def split: option.splits)
  with assms(1) c show ?thesis
    by (simp add: join_game_def Let_def lobby_players_def roster_def)
qed

lemma run_joins_roster:
  assumes "in_lobby s gid" and "list_all (\<lambda>e. is_join_for gid (snd e)) es"
    and "distinct (map_keys (roster s gid) @ issued_ids es)"
  shows "\<exists>new. roster (run es s) gid = roster s gid @ new
           \<and> map_keys new = issued_ids es
           \<and> list_all (\<lambda>kp. taps (snd kp) = 0 \<and> playerId (snd kp) = fst kp) new
           \<and> in_lobby (run es s) gid"
  using assms
proof (induction es arbitrary: s)
  case Nil
  then show ?case by (simp add: issued_ids_def map_keys_def)
next
  case (Cons e es)
  obtain now ev where e: "e = (now, ev)" by (cases e)
  from Cons.prems(2) e obtain sock u pg a rnd
    where ev: "ev = JoinGame sock u pg a rnd" and gid: "str_or pg ''default'' = gid"
    by (cases ev) auto
  let ?s1 = "fst (join_game sock u pg a rnd now s)"
  have s1: "run (e # es) s = run es ?s1" by (simp add: e ev)
  have l1: "in_lobby ?s1 gid" using Cons.prems(1) by (rule join_game_in_lobby)
  have rest: "list_all (\<lambda>e. is_join_for gid (snd e)) es" using Cons.prems(2) by simp
  show ?case
  proof (cases "js_trim (str_or u []) = []")
    case True
    then have same: "?s1 = s" by (simp add: join_game_blank)
    have ids: "issued_ids (e # es) = issued_ids es"
      using True by (simp add: issued_ids_def e ev)
    have "run (e # es) s = run es s" by (simp only: s1 same)
    with Cons.IH [OF Cons.prems(1) rest] Cons.prems(3) show ?thesis
      by (simp only: ids)
  next
    case False
    let ?pid = "generateId ''player'' rnd now"
    let ?p = "\<lparr>playerId = ?pid, username = js_trim (str_or u []), socketId = sock, taps = 0\<rparr>"
    have ids: "issued_ids (e # es) = ?pid # issued_ids es"
      using False by (simp add: issued_ids_def e ev)
    with Cons.prems(3) have fresh: "?pid \<notin> set (map_keys (roster s gid))" by auto
    have r1: "roster ?s1 gid = roster s gid @ [(?pid, ?p)]"
      using False gid Cons.prems(1) fresh by (simp add: join_game_roster map_set_fresh)
    have d1: "distinct (map_keys (roster ?s1 gid) @ issued_ids es)"
      using Cons.prems(3) by (simp add: r1 ids map_keys_def)
    from Cons.IH [OF l1 rest d1]
    obtain new where new: "roster (run es ?s1) gid = roster ?s1 gid @ new"
        "map_keys new = issued_ids es"
        "list_all (\<lambda>kp. taps (snd kp) = 0 \<and> playerId (snd kp) = fst kp) new"
        "in_lobby (run es ?s1) gid"
      by blast
    have "roster (run (e # es) s) gid = roster s gid @ ((?pid, ?p) # new)"
      unfolding s1 new(1) r1 by simp
    moreover have "map_keys ((?pid, ?p) # new) = issued_ids (e # es)"
      by (simp add: ids new(2) [symmetric] map_keys_def)
    moreover have "list_all (\<lambda>kp. taps (snd kp) = 0 \<and> playerId (snd kp) = fst kp) ((?pid, ?p) # new)"
      using new(3) by simp
    moreover have "in_lobby (run (e # es) s) gid"
      unfolding s1 by (rule new(4))
    ultimately show ?thesis by blast
  qed
qed

text \<open>
  C6, as the code has it. A join whose name is not blank, on a room in Lobby (or not yet
  registered), is accepted: the room is told the new roster and the sender is acknowledged the
  id \<open>generateId\<close> made; when that id is not yet a key of the roster, a participant with score
  zero is appended under it. The id is made from a random draw and the clock and is not
  checked against the roster. So for a sequence of joins of one room in Lobby whose issued ids
  are distinct and new to the roster, the roster afterwards is the old one followed by one
  zero-score participant per accepted join, in order, and its size has grown by the number of
  accepted joins. A join with a blank name fails with \<open>username_required\<close>, and a join with a
  name on a room not in Lobby fails with \<open>game_already_started\<close>; both leave the state as it was.
\<close>

theorem join_adds_participant:
  assumes gid: "gid = str_or pg ''default''" and uname: "uname = js_trim (str_or u [])"
    and pid: "pid = generateId ''player'' rnd now"
    and s': "s' = fst (join_game sock u pg a rnd now s)"
  shows "(uname \<noteq> [] \<and> in_lobby s gid \<longrightarrow>
            snd (join_game sock u pg a rnd now s) =
              Emit gid (LobbyUpdate gid (map (\<lambda>p. (playerId p, username p))
                                           (map_values (roster s' gid))))
                # send_ack a sock (AckJoinOk pid gid)
            \<and> (pid \<notin> set (map_keys (roster s gid)) \<longrightarrow>
                  roster s' gid = roster s gid
                    @ [(pid, \<lparr>playerId = pid, username = uname, socketId = sock, taps = 0\<rparr>)]))
         \<and> (uname \<noteq> [] \<and> \<not> in_lobby s gid \<longrightarrow>
              join_game sock u pg a rnd now s
                = (s, send_ack a sock (AckError ''game_already_started'')))
         \<and> (uname = [] \<longrightarrow>
              join_game sock u pg a rnd now s
                = (s, send_ack a sock (AckError ''username_required'')))
         \<and> (\<forall>es t. in_lobby t gid \<and> list_all (\<lambda>e. is_join_for gid (snd e)) es
                   \<and> distinct (map_keys (roster t gid) @ issued_ids es) \<longrightarrow>
               (\<exists>new. roster (run es t) gid = roster t gid @ new
                  \<and> map_keys new = issued_ids es
                  \<and> list_all (\<lambda>kp. taps (snd kp) = 0 \<and> playerId (snd kp) = fst kp) new
                  \<and> length (roster (run es t) gid) = length (roster t gid) + length (issued_ids es)
                  \<and> in_lobby (run es t) gid))"
proof (intro conjI allI impI)
  assume "uname \<noteq> [] \<and> in_lobby s gid"
  then show "snd (join_game sock u pg a rnd now s) =
              Emit gid (LobbyUpdate gid (map (\<lambda>p. (playerId p, username p))
                                           (map_values (roster s' gid))))
                # send_ack a sock (AckJoinOk pid gid)"
    unfolding gid uname pid s' by (simp add: join_game_accepted)
next
  assume "uname \<noteq> [] \<and> in_lobby s gid" and "pid \<notin> set (map_keys (roster s gid))"
  then show "roster s' gid = roster s gid
                    @ [(pid, \<lparr>playerId = pid, username = uname, socketId = sock, taps = 0\<rparr>)]"
    unfolding gid uname pid s' by (simp add: join_game_roster map_set_fresh)
next
  assume "uname \<noteq> [] \<and> \<not> in_lobby s gid"
  then show "join_game sock u pg a rnd now s
                = (s, send_ack a sock (AckError ''game_already_started''))"
    unfolding gid uname by (simp add: join_game_late)
next
  assume "uname = []"
  then show "join_game sock u pg a rnd now s
                = (s, send_ack a sock (AckError ''username_required''))"
    unfolding uname by (simp add: join_game_blank)
next
  fix es t
  assume h: "in_lobby t gid \<and> list_all (\<lambda>e. is_join_for gid (snd e)) es
                   \<and> distinct (map_keys (roster t gid) @ issued_ids es)"
  then have "in_lobby t gid" "list_all (\<lambda>e. is_join_for gid (snd e)) es"
      "distinct (map_keys (roster t gid) @ issued_ids es)" by simp_all
  from run_joins_roster [OF this]
  obtain new where new: "roster (run es t) gid = roster t gid @ new"
      "map_keys new = issued_ids es"
      "list_all (\<lambda>kp. taps (snd kp) = 0 \<and> playerId (snd kp) = fst kp) new"
      "in_lobby (run es t) gid"
    by blast
  have "length (roster (run es t) gid) = length (roster t gid) + length (issued_ids es)"
    using arg_cong [OF new(2), of length] by (simp add: new(1) map_keys_def)
  with new
  show "\<exists>new. roster (run es t) gid = roster t gid @ new
                  \<and> map_keys new = issued_ids es
                  \<and> list_all (\<lambda>kp. taps (snd kp) = 0 \<and> playerId (snd kp) = fst kp) new
                  \<and> length (roster (run es t) gid) = length (roster t gid) + length (issued_ids es)
                  \<and> in_lobby (run es t) gid"
    by blast
qed

text \<open>
  The two joins of the example issue different ids and give a roster of two; Carl's join
  after the start is refused.
\<close>

theorem join_adds_participant_witness:
  "map_keys (roster ex_lobby ''default'') = [''player_aaaaaaaa2s'', ''player_bbbbbbbb2t'']
   \<and> length (roster ex_lobby ''default'') = 2
   \<and> join_game ''C'' (Some ''carl'') None True ''cccccccc'' 300 ex_running
       = (ex_running, [Ack ''C'' (AckError ''game_already_started'')])"
proof -
  let ?es = "[(100, JoinGame ''A'' (Some ''alice'') None True ''aaaaaaaa''),
              (101, JoinGame ''B'' (Some ''bob'') None True ''bbbbbbbb'')]"
  have g: "''default'' = str_or None ''default''" by (simp add: str_or_def)
  have u: "''carl'' = js_trim (str_or (Some ''carl'') [])" by code_simp
  note r = join_adds_participant [where sock = "''C''" and a = True and rnd = "''cccccccc''"
             and now = 300 and s = ex_running, OF g u refl refl]
  have late: "''carl'' \<noteq> [] \<and> \<not> in_lobby ex_running ''default''"
    by (simp add: in_lobby_def ex_running_eq map_get_def)
  have 3: "join_game ''C'' (Some ''carl'') None True ''cccccccc'' 300 ex_running
       = (ex_running, send_ack True ''C'' (AckError ''game_already_started''))"
    by (rule r [THEN conjunct2, THEN conjunct1, THEN mp, OF late])
  have ids: "issued_ids ?es = [''player_aaaaaaaa2s'', ''player_bbbbbbbb2t'']"
    by code_simp
  have pre: "in_lobby init_server ''default'' \<and> list_all (\<lambda>e. is_join_for ''default'' (snd e)) ?es
             \<and> distinct (map_keys (roster init_server ''default'') @ issued_ids ?es)"
    by (simp add: ids in_lobby_def roster_def init_server_def map_get_def map_keys_def str_or_def)
  from r [THEN conjunct2, THEN conjunct2, THEN conjunct2, THEN spec, THEN spec, THEN mp, OF pre]
  obtain new where "roster (run ?es init_server) ''default'' = roster init_server ''default'' @ new"
      "map_keys new = issued_ids ?es"
    by blast
  then have 1: "map_keys (roster ex_lobby ''default'') = [''player_aaaaaaaa2s'', ''player_bbbbbbbb2t'']"
    by (simp add: ex_lobby_def ids roster_def init_server_def map_get_def)
  from arg_cong [OF 1, of length] have 2: "length (roster ex_lobby ''default'') = 2"
    by (simp add: map_keys_def)
  from 1 2 3 show ?thesis by (simp add: send_ack_def)
qed

text \<open>
  Ids can repeat, and the name is checked first. Two joins in one millisecond whose random draws agree are
  both acknowledged as accepted, with the same id, and leave one roster entry. And a join with
  a blank name on a Running room is refused with \<open>username_required\<close>, not with
  \<open>game_already_started\<close>.
\<close>

theorem join_adds_participant_counterexample:
  "run_outs ex_collision init_server =
     [Emit ''default'' (LobbyUpdate ''default'' [(''player_aaaaaaaa2s'', ''alice'')]),
      Ack ''A'' (AckJoinOk ''player_aaaaaaaa2s'' ''default''),
      Emit ''default'' (LobbyUpdate ''default'' [(''player_aaaaaaaa2s'', ''bob'')]),
      Ack ''B'' (AckJoinOk ''player_aaaaaaaa2s'' ''default'')]
   \<and> length (roster (run ex_collision init_server) ''default'') = 1
   \<and> snd (join_game ''C'' (Some ''  '') None True ''cccccccc'' 300 ex_running)
       = [Ack ''C'' (AckError ''username_required'')]"
  by code_simp

subsection \<open>Connections and roster entries\<close>

lemma filter_map_set_le:
  "length (filter P (map_set k v m)) \<le> length (filter P m) + (if P (k, v) then 1 else 0)"
  by (induction m) auto

lemma filter_map_set_same:
  "map_get m k = Some v0 \<Longrightarrow> P (k, v) = P (k, v0) \<Longrightarrow>
     length (filter P (map_set k v m)) = length (filter P m)"
  by (induction m) (auto simp: map_get_def split: if_splits)

lemma filter_map_delete_le:
  "length (filter P (map_delete k m)) \<le> length (filter P m)"
  by (induction m) (auto simp: map_delete_def)

lemma filter_reset_taps:
  "length (filter (\<lambda>kp. socketId (snd kp) = h) (reset_taps m))
     = length (filter (\<lambda>kp. socketId (snd kp) = h) m)"
  by (induction m) (auto simp: reset_taps_def)

lemma step_entries:
  "entries_of h gid (fst (step now e s))
     \<le> entries_of h gid s + (if is_join_by h gid e then 1 else 0)"
proof (cases e)
  case (JoinGame sock u pg a rnd)
  let ?P = "\<lambda>kp. socketId (snd kp) = h"
  let ?pid = "generateId ''player'' rnd now"
  let ?p = "\<lparr>playerId = ?pid, username = js_trim (str_or u []), socketId = sock, taps = 0\<rparr>"
  from filter_map_set_le [of ?P ?pid ?p "roster s gid"]
  have "length (filter ?P (map_set ?pid ?p (roster s gid)))
          \<le> length (filter ?P (roster s gid)) + (if sock = h then 1 else 0)"
    by simp
  with JoinGame show ?thesis
    by (auto simp: entries_of_def join_game_roster)
next
  case (StartGame sock pg a)
  with start_game_roster [of sock pg a now s gid] show ?thesis
    by (auto simp: entries_of_def filter_reset_taps)
next
  case (Tap sock pg pp)
  with tap_roster [of sock pg pp now s gid] show ?thesis
    by (auto simp: entries_of_def filter_map_set_same)
next
  case (Disconnect sock)
  then show ?thesis
    by (auto simp: entries_of_def disconnect_roster filter_map_delete_le split: option.splits)
next
  case (TimerFire h')
  then show ?thesis by (simp add: entries_of_def timer_fire_roster)
next
  case GetLeaderboard
  then show ?thesis by (simp add: leaderboard_def)
qed

lemma run_entries:
  "entries_of h gid (run es s) \<le> entries_of h gid s + joins_by h gid es"
proof (induction es arbitrary: s)
  case Nil
  show ?case by (simp add: joins_by_def)
next
  case (Cons e es)
  let ?s1 = "fst (step (fst e) (snd e) s)"
  have "entries_of h gid (run (e # es) s) \<le> entries_of h gid ?s1 + joins_by h gid es"
    using Cons [of ?s1] by simp
  also have "\<dots> \<le> entries_of h gid s + (if is_join_by h gid (snd e) then 1 else 0)
                    + joins_by h gid es"
    using step_entries [of h gid "fst e" "snd e" s] by simp
  also have "\<dots> = entries_of h gid s + joins_by h gid (e # es)"
    by (simp add: joins_by_def)
  finally show ?case .
qed

lemma fst_set_map_set: "fst ` set (map_set k v m) = insert k (fst ` set m)"
  by (induction m) auto

lemma distinct_fst_map_set: "distinct (map fst m) \<Longrightarrow> distinct (map fst (map_set k v m))"
  by (induction m) (auto simp: fst_set_map_set)

lemma distinct_map_set:
  "distinct (map_keys m) \<Longrightarrow> distinct (map_keys (map_set k v m))"
  unfolding map_keys_def by (rule distinct_fst_map_set)

lemma set_map_keys_map_set: "set (map_keys (map_set k v m)) = insert k (set (map_keys m))"
  unfolding map_keys_def by (simp add: fst_set_map_set)

lemma generateId_nonempty': "[] \<noteq> generateId ''player'' rnd now"
  by (simp add: generateId_def)

lemma map_keys_reset_taps: "map_keys (reset_taps m) = map_keys m"
  by (induction m) (auto simp: map_keys_def reset_taps_def)

lemma map_keys_map_delete: "map_keys (map_delete k m) = filter (\<lambda>x. x \<noteq> k) (map_keys m)"
  by (induction m) (auto simp: map_keys_def map_delete_def)

lemma rosters_ok_step:
  assumes ok: "rosters_ok s"
  shows "rosters_ok (fst (step now e s))"
  unfolding rosters_ok_def
proof
  fix gid
  from ok have d: "distinct (map_keys (roster s gid))" and n: "[] \<notin> set (map_keys (roster s gid))"
    by (simp_all add: rosters_ok_def)
  let ?r' = "roster (fst (step now e s)) gid"
  show "distinct (map_keys ?r') \<and> [] \<notin> set (map_keys ?r')"
  proof (cases e)
    case (JoinGame sock u pg a rnd)
    with d n show ?thesis
      by (simp add: join_game_roster distinct_map_set set_map_keys_map_set generateId_nonempty'
            del: set_map)
  next
    case (StartGame sock pg a)
    with start_game_roster [of sock pg a now s gid] d n show ?thesis
      by (auto simp: map_keys_reset_taps)
  next
    case (Tap sock pg pp)
    with tap_roster [of sock pg pp now s gid] d n show ?thesis
      by (auto simp: map_get_def map_keys_map_set_present)
  next
    case (Disconnect sock)
    with d n show ?thesis
      by (auto simp: disconnect_roster map_keys_map_delete split: option.splits)
  next
    case (TimerFire h)
    with d n show ?thesis by (simp add: timer_fire_roster)
  next
    case GetLeaderboard
    with d n show ?thesis by (simp add: leaderboard_def)
  qed
qed

lemma reachable_rosters_ok: "reachable s \<Longrightarrow> rosters_ok s"
proof (induction rule: reachable.induct)
  case reachable_init
  show ?case by (simp add: rosters_ok_def roster_def init_server_def map_get_def map_keys_def)
next
  case (reachable_step s now e)
  then show ?case by (simp add: rosters_ok_step)
qed

lemma run_append: "run (es @ fs) s = run fs (run es s)"
  by (induction es arbitrary: s) simp_all

lemma reachable_iff_run: "reachable s = (\<exists>es. s = run es init_server)"
proof
  assume "reachable s"
  then show "\<exists>es. s = run es init_server"
  proof (induction rule: reachable.induct)
    case reachable_init
    have "init_server = run [] init_server" by simp
    then show ?case by blast
  next
    case (reachable_step s now e)
    then obtain es where "s = run es init_server" by blast
    then have "fst (step now e s) = run (es @ [(now, e)]) init_server"
      by (simp add: run_append)
    then show ?case by blast
  qed
next
  assume "\<exists>es. s = run es init_server"
  then show "reachable s" by (auto intro: reachable_run reachable_init)
qed

lemma map_delete_distinct:
  assumes "distinct (map fst m)" and "kp \<in> set m"
  shows "map_delete (fst kp) m = remove1 kp m"
proof -
  from assms(1) have inj: "inj_on fst (set m)" and d: "distinct m"
    by (simp_all add: distinct_map)
  have "map_delete (fst kp) m = filter (\<lambda>e. kp \<noteq> e) m"
    unfolding map_delete_def
  proof (rule filter_cong [OF refl])
    fix e assume "e \<in> set m"
    with inj assms(2) show "(fst e \<noteq> fst kp) = (kp \<noteq> e)"
      by (auto dest: inj_onD)
  qed
  also have "\<dots> = removeAll kp m" by (simp add: removeAll_filter_not_eq)
  also have "\<dots> = remove1 kp m" using d by (simp add: distinct_remove1_removeAll)
  finally show ?thesis .
qed

lemma disconnect_roster_ok:
  assumes ok: "rosters_ok s"
  shows "roster (fst (disconnect h s)) gid =
           (case find (\<lambda>kp. socketId (snd kp) = h) (roster s gid) of
              None \<Rightarrow> roster s gid
            | Some kp \<Rightarrow> remove1 kp (roster s gid))"
proof (cases "find (\<lambda>kp. socketId (snd kp) = h) (roster s gid)")
  case None
  then show ?thesis by (simp add: disconnect_roster)
next
  case (Some kp)
  then have kp: "kp \<in> set (roster s gid)"
    by (auto simp: find_Some_iff)
  from ok have d: "distinct (map fst (roster s gid))" and n: "[] \<notin> fst ` set (roster s gid)"
    by (simp_all add: rosters_ok_def map_keys_def)
  from n kp have "fst kp \<noteq> []" by force
  with Some map_delete_distinct [OF d kp] show ?thesis
    by (simp add: disconnect_roster)
qed

lemma disconnect_others:
  assumes ok: "rosters_ok s"
  shows "filter (\<lambda>kp. socketId (snd kp) \<noteq> h) (roster (fst (disconnect h s)) gid)
           = filter (\<lambda>kp. socketId (snd kp) \<noteq> h) (roster s gid)"
proof (cases "find (\<lambda>kp. socketId (snd kp) = h) (roster s gid)")
  case None
  then show ?thesis by (simp add: disconnect_roster_ok [OF ok])
next
  case (Some kp)
  then have "socketId (snd kp) = h" by (auto simp: find_Some_iff)
  then have "filter (\<lambda>kp. socketId (snd kp) \<noteq> h) (remove1 kp (roster s gid))
               = filter (\<lambda>kp. socketId (snd kp) \<noteq> h) (roster s gid)"
    by (simp add: filter_remove1 remove1_idem)
  with Some show ?thesis by (simp add: disconnect_roster_ok [OF ok])
qed

lemma disconnect_entries:
  assumes ok: "rosters_ok s"
  shows "entries_of h gid (fst (disconnect h s)) = entries_of h gid s - 1"
proof (cases "find (\<lambda>kp. socketId (snd kp) = h) (roster s gid)")
  case None
  then have "filter (\<lambda>kp. socketId (snd kp) = h) (roster s gid) = []"
    by (fastforce simp: find_None_iff filter_empty_conv)
  with None show ?thesis by (simp add: entries_of_def disconnect_roster_ok [OF ok])
next
  case (Some kp)
  then have kp: "kp \<in> set (roster s gid)" "socketId (snd kp) = h"
    by (auto simp: find_Some_iff)
  have "length (filter (\<lambda>kp. socketId (snd kp) = h) (remove1 kp (roster s gid)))
          = length (filter (\<lambda>kp. socketId (snd kp) = h) (roster s gid)) - 1"
    using kp by (simp add: filter_remove1 length_remove1)
  with Some show ?thesis by (simp add: entries_of_def disconnect_roster_ok [OF ok])
qed

lemma disconnect_room:
  assumes "map_get (games s) gid = Some g"
  shows "\<exists>g'. map_get (games (fst (disconnect h s))) gid = Some g'
           \<and> status g' = status g \<and> startTime g' = startTime g \<and> endTime g' = endTime g
           \<and> timeoutHandle g' = timeoutHandle g"
  using assms disconnect_game_timing [of h "(gid, g)"]
  by (simp add: disconnect_def Let_def comp_def map_get_disconnect)

text \<open>
  C7, as the code has it. \<open>join_game\<close> does not look for an entry of the joining connection,
  so a connection has at most as many entries in a room as it has sent joins for that room:
  at most one when it has joined the room at most once. A disconnect never changes the status,
  the times or the timer of a room, whatever the status is, and leaves the roster entries of
  all other connections as they were; when the connection has at most one entry in the room,
  no entry of it is left.
\<close>

theorem disconnect_removes_entry:
  assumes s: "s = run es init_server"
  shows "entries_of h gid s \<le> joins_by h gid es
         \<and> (joins_by h gid es \<le> 1 \<longrightarrow> entries_of h gid s \<le> 1)
         \<and> (\<forall>g. map_get (games s) gid = Some g \<longrightarrow>
               (\<exists>g'. map_get (games (fst (disconnect h s))) gid = Some g'
                  \<and> status g' = status g \<and> startTime g' = startTime g
                  \<and> endTime g' = endTime g \<and> timeoutHandle g' = timeoutHandle g))
         \<and> filter (\<lambda>kp. socketId (snd kp) \<noteq> h) (roster (fst (disconnect h s)) gid)
             = filter (\<lambda>kp. socketId (snd kp) \<noteq> h) (roster s gid)
         \<and> (entries_of h gid s \<le> 1 \<longrightarrow> entries_of h gid (fst (disconnect h s)) = 0)"
proof -
  have "reachable s" unfolding s by (intro reachable_run reachable_init)
  then have ok: "rosters_ok s" by (rule reachable_rosters_ok)
  have "entries_of h gid init_server = 0"
    by (simp add: entries_of_def roster_def init_server_def map_get_def)
  with run_entries [of h gid es init_server]
  have 1: "entries_of h gid s \<le> joins_by h gid es" by (simp add: s)
  then have 2: "joins_by h gid es \<le> 1 \<longrightarrow> entries_of h gid s \<le> 1" by simp
  have 3: "\<forall>g. map_get (games s) gid = Some g \<longrightarrow>
               (\<exists>g'. map_get (games (fst (disconnect h s))) gid = Some g'
                  \<and> status g' = status g \<and> startTime g' = startTime g
                  \<and> endTime g' = endTime g \<and> timeoutHandle g' = timeoutHandle g)"
    using disconnect_room by blast
  have 5: "entries_of h gid s \<le> 1 \<longrightarrow> entries_of h gid (fst (disconnect h s)) = 0"
    by (simp add: disconnect_entries [OF ok])
  show ?thesis by (intro conjI 1 2 3 5 disconnect_others [OF ok])
qed

text \<open>
  In the started example Alice's connection has joined once and has one entry; after its
  disconnect it has none, and Bob's entry is still there.
\<close>

theorem disconnect_removes_entry_witness:
  "entries_of ''A'' ''default'' ex_running \<le> 1
   \<and> entries_of ''A'' ''default'' (fst (disconnect ''A'' ex_running)) = 0
   \<and> map_keys (filter (\<lambda>kp. socketId (snd kp) \<noteq> ''A'')
                 (roster (fst (disconnect ''A'' ex_running)) ''default'')) = [''player_bbbbbbbb2t'']"
proof -
  let ?es = "[(100, JoinGame ''A'' (Some ''alice'') None True ''aaaaaaaa''),
              (101, JoinGame ''B'' (Some ''bob'') None True ''bbbbbbbb'')]
             @ [(200, StartGame ''A'' None True)]"
  have s: "ex_running = run ?es init_server"
    by (simp only: ex_running_def ex_lobby_def run_append)
  note r = disconnect_removes_entry [OF s, of "''A''" "''default''"]
  have j: "joins_by ''A'' ''default'' ?es \<le> 1"
    by (simp add: joins_by_def str_or_def)
  have 1: "entries_of ''A'' ''default'' ex_running \<le> 1"
    by (rule r [THEN conjunct2, THEN conjunct1, THEN mp, OF j])
  have 2: "entries_of ''A'' ''default'' (fst (disconnect ''A'' ex_running)) = 0"
    by (rule r [THEN conjunct2, THEN conjunct2, THEN conjunct2, THEN conjunct2, THEN mp, OF 1])
  have "filter (\<lambda>kp. socketId (snd kp) \<noteq> ''A'') (roster (fst (disconnect ''A'' ex_running)) ''default'')
          = filter (\<lambda>kp. socketId (snd kp) \<noteq> ''A'') (roster ex_running ''default'')"
    by (rule r [THEN conjunct2, THEN conjunct2, THEN conjunct2, THEN conjunct1])
  then have 3: "map_keys (filter (\<lambda>kp. socketId (snd kp) \<noteq> ''A'')
                 (roster (fst (disconnect ''A'' ex_running)) ''default'')) = [''player_bbbbbbbb2t'']"
    by (simp add: roster_def ex_running_eq map_get_def map_keys_def)
  show ?thesis by (intro conjI 1 2 3)
qed

text \<open>
  A connection can hold two entries: a connection that joins the default room twice holds two roster
  entries, and after its disconnect one of them is still in the roster.
\<close>

theorem disconnect_removes_entry_counterexample:
  "entries_of ''A'' ''default'' (run ex_double_join init_server) = 2
   \<and> entries_of ''A'' ''default'' (fst (disconnect ''A'' (run ex_double_join init_server))) = 1"
  by code_simp

end
